theory Spec2Isabelle
  imports Main
begin

section \<open>Shared vocabulary\<close>

text \<open>
  Positions are pairs of Python integers \<open>(x, y)\<close>.  The exceptions the modelled code can
  raise are values of \<open>error\<close>; a computation that may raise returns \<open>error + 'a\<close>, and
  one that contains a \<^verbatim>\<open>while\<close> loop additionally returns \<open>option\<close>, where \<open>None\<close>
  stands for a loop that never exits.
\<close>

type_synonym pos = "int \<times> int"

datatype error = IndexError | KeyError | ValueError

text \<open>
  Python list indexing \<^verbatim>\<open>xs[i]\<close> and item assignment \<^verbatim>\<open>xs[i] = v\<close>: a negative index
  counts from the end, an index outside \<open>-len \<dots> len - 1\<close> raises \<^verbatim>\<open>IndexError\<close>.
\<close>

definition norm_index :: "nat \<Rightarrow> int \<Rightarrow> error + nat" where
  "norm_index n i =
     (let j = (if i < 0 then int n + i else i)
      in if 0 \<le> j \<and> j < int n then Inr (nat j) else Inl IndexError)"

definition py_get :: "'a list \<Rightarrow> int \<Rightarrow> error + 'a" where
  "py_get xs i = (case norm_index (length xs) i of Inl e \<Rightarrow> Inl e | Inr k \<Rightarrow> Inr (xs ! k))"

definition py_set :: "'a list \<Rightarrow> int \<Rightarrow> 'a \<Rightarrow> error + 'a list" where
  "py_set xs i v =
     (case norm_index (length xs) i of Inl e \<Rightarrow> Inl e | Inr k \<Rightarrow> Inr (xs[k := v]))"

text \<open>\<^verbatim>\<open>range(a, b)\<close> over Python integers.\<close>

definition py_range :: "int \<Rightarrow> int \<Rightarrow> int list" where
  "py_range a b = [a..b - 1]"

section \<open>pathfinding.py\<close>

type_synonym walkgrid = "bool list list"

definition heuristic :: "pos \<Rightarrow> pos \<Rightarrow> int" where
  "heuristic a b = \<bar>fst a - fst b\<bar> + \<bar>snd a - snd b\<bar>"

text \<open>\<^verbatim>\<open>grid_height = len(grid)\<close>, \<^verbatim>\<open>grid_width = len(grid[0]) if grid_height > 0 else 0\<close>.\<close>

definition grid_height :: "walkgrid \<Rightarrow> int" where
  "grid_height grid = int (length grid)"

definition grid_width :: "walkgrid \<Rightarrow> int" where
  "grid_width grid = (if grid_height grid > 0 then int (length (hd grid)) else 0)"

definition in_grid :: "walkgrid \<Rightarrow> pos \<Rightarrow> bool" where
  "in_grid grid p \<longleftrightarrow>
     0 \<le> fst p \<and> fst p < grid_width grid \<and> 0 \<le> snd p \<and> snd p < grid_height grid"

text \<open>\<^verbatim>\<open>grid[p[1]][p[0]]\<close>\<close>

definition cell :: "walkgrid \<Rightarrow> pos \<Rightarrow> error + bool" where
  "cell grid p =
     (case py_get grid (snd p) of
        Inl e \<Rightarrow> Inl e
      | Inr row \<Rightarrow> py_get row (fst p))"

text \<open>
  The open set is a \<^verbatim>\<open>heapq\<close> of tuples \<open>(f, (x, y))\<close>.  The code only pushes, pops
  the smallest tuple and scans the nodes, so the heap is kept as a list of its entries and
  \<open>heappop\<close> removes the least entry in Python's tuple order.
\<close>

type_synonym entry = "int \<times> pos"

definition entry_less :: "entry \<Rightarrow> entry \<Rightarrow> bool" where
  "entry_less a b \<longleftrightarrow>
     fst a < fst b \<or>
     (fst a = fst b \<and>
       (fst (snd a) < fst (snd b) \<or>
        (fst (snd a) = fst (snd b) \<and> snd (snd a) < snd (snd b))))"

fun least_entry :: "entry \<Rightarrow> entry list \<Rightarrow> entry" where
  "least_entry m [] = m"
| "least_entry m (e # es) = least_entry (if entry_less e m then e else m) es"

definition heappush :: "entry list \<Rightarrow> entry \<Rightarrow> entry list" where
  "heappush h e = h @ [e]"

definition heappop :: "entry list \<Rightarrow> entry \<times> entry list" where
  "heappop h = (let m = least_entry (hd h) (tl h) in (m, remove1 m h))"

record astar_state =
  open_set :: "entry list"
  closed_set :: "pos set"
  g_score :: "pos \<rightharpoonup> int"
  f_score :: "pos \<rightharpoonup> int"
  came_from :: "pos \<rightharpoonup> pos"

definition directions :: "pos list" where
  "directions = [(0, -1), (1, 0), (0, 1), (-1, 0)]"

text \<open>The three dictionary writes made when a better way to \<open>neighbor\<close> is found.\<close>

definition record_better :: "astar_state \<Rightarrow> pos \<Rightarrow> pos \<Rightarrow> int \<Rightarrow> int \<Rightarrow> astar_state" where
  "record_better st neighbor current tentative f =
     st\<lparr>came_from := (came_from st)(neighbor \<mapsto> current),
        g_score := (g_score st)(neighbor \<mapsto> tentative),
        f_score := (f_score st)(neighbor \<mapsto> f)\<rparr>"

text \<open>The body of the \<^verbatim>\<open>for dx, dy in directions\<close> loop, for one direction.\<close>

definition visit_neighbor ::
  "walkgrid \<Rightarrow> pos \<Rightarrow> pos \<Rightarrow> astar_state \<Rightarrow> pos \<Rightarrow> error + astar_state" where
  "visit_neighbor grid goal current st d =
     (let neighbor = (fst current + fst d, snd current + snd d) in
      if \<not> in_grid grid neighbor then Inr st
      else case cell grid neighbor of
        Inl e \<Rightarrow> Inl e
      | Inr walkable \<Rightarrow>
          if \<not> walkable \<or> neighbor \<in> closed_set st then Inr st
          else case g_score st current of
            None \<Rightarrow> Inl KeyError
          | Some gc \<Rightarrow>
              let tentative = gc + 1 in
              if (case g_score st neighbor of None \<Rightarrow> True | Some gn \<Rightarrow> tentative < gn)
              then
                let f = tentative + heuristic neighbor goal;
                    st1 = record_better st neighbor current tentative f
                in if neighbor \<notin> snd ` set (open_set st1)
                   then Inr (st1\<lparr>open_set := heappush (open_set st1) (f, neighbor)\<rparr>)
                   else Inr st1
              else Inr st)"

fun visit_all ::
  "walkgrid \<Rightarrow> pos \<Rightarrow> pos \<Rightarrow> astar_state \<Rightarrow> pos list \<Rightarrow> error + astar_state" where
  "visit_all grid goal current st [] = Inr st"
| "visit_all grid goal current st (d # ds) =
     (case visit_neighbor grid goal current st d of
        Inl e \<Rightarrow> Inl e
      | Inr st' \<Rightarrow> visit_all grid goal current st' ds)"

text \<open>Path reconstruction: \<^verbatim>\<open>while current in came_from\<close>, then \<^verbatim>\<open>path.reverse()\<close>.\<close>

partial_function (option) reconstruct :: "(pos \<rightharpoonup> pos) \<Rightarrow> pos \<Rightarrow> pos list \<Rightarrow> pos list option" where
  "reconstruct cf current path =
     (case cf current of
        None \<Rightarrow> Some (rev path)
      | Some parent \<Rightarrow> reconstruct cf parent (path @ [parent]))"

declare reconstruct.simps [code]

text \<open>The \<^verbatim>\<open>while open_set\<close> loop.\<close>

partial_function (option) astar_loop ::
  "walkgrid \<Rightarrow> pos \<Rightarrow> astar_state \<Rightarrow> (error + pos list) option" where
  "astar_loop grid goal st =
     (if open_set st = [] then Some (Inr [])
      else
        let (m, rest) = heappop (open_set st);
            current = snd m
        in if current = goal
           then map_option Inr (reconstruct (came_from st) current [current])
           else
             case visit_all grid goal current
                    (st\<lparr>open_set := rest, closed_set := insert current (closed_set st)\<rparr>)
                    directions of
               Inl e \<Rightarrow> Some (Inl e)
             | Inr st' \<Rightarrow> astar_loop grid goal st')"

declare astar_loop.simps [code]

definition astar :: "walkgrid \<Rightarrow> pos \<Rightarrow> pos \<Rightarrow> (error + pos list) option" where
  "astar grid start goal =
     (if \<not> in_grid grid start \<or> \<not> in_grid grid goal then Some (Inr [])
      else if start = goal then Some (Inr [start])
      else case cell grid goal of
        Inl e \<Rightarrow> Some (Inl e)
      | Inr walkable \<Rightarrow>
          if \<not> walkable then Some (Inr [])
          else astar_loop grid goal
                 \<lparr>open_set = heappush [] (heuristic start goal, start),
                  closed_set = {},
                  g_score = [start \<mapsto> 0],
                  f_score = [start \<mapsto> heuristic start goal],
                  came_from = Map.empty\<rparr>)"

section \<open>tile.py\<close>

datatype tile_type = WALL | FLOOR | WATER | LAVA | DOOR | STAIRS_DOWN | STAIRS_UP

text \<open>
  A \<^verbatim>\<open>Tile\<close> stores the enum's value, which stands here as the enum member itself; the
  \<^verbatim>\<open>entity\<close> attribute is never written by the modelled code and is left out.
\<close>

record tile =
  kind :: tile_type
  variant :: int
  explored :: bool
  visible :: bool

definition Tile :: "tile_type \<Rightarrow> tile" where
  "Tile t = \<lparr>kind = t, variant = 0, explored = False, visible = False\<rparr>"


definition is_transparent :: "tile \<Rightarrow> bool" where
  "is_transparent t \<longleftrightarrow> kind t \<noteq> WALL"

section \<open>dungeon.py: the grid\<close>

text \<open>
  Rooms are objects that the generator mutates through several references; in the model a
  room is addressed by its index in \<open>rooms\<close>.
\<close>

record room =
  room_x :: int
  room_y :: int
  room_width :: int
  room_height :: int
  room_type :: string
  connected :: bool

record dungeon =
  width :: int
  height :: int
  grid :: "tile list list"
  rooms :: "room list"
  player_start :: "pos option"
  stairs_down :: "pos option"

text \<open>\<^verbatim>\<open>self.grid[y][x]\<close>\<close>

definition tile_at :: "tile list list \<Rightarrow> int \<Rightarrow> int \<Rightarrow> error + tile" where
  "tile_at g x y = (case py_get g y of Inl e \<Rightarrow> Inl e | Inr row \<Rightarrow> py_get row x)"

text \<open>\<^verbatim>\<open>self.grid[y][x].attr = v\<close>: the tile object read at \<open>[y][x]\<close> is changed in place.\<close>

definition modify_tile ::
  "tile list list \<Rightarrow> int \<Rightarrow> int \<Rightarrow> (tile \<Rightarrow> tile) \<Rightarrow> error + tile list list" where
  "modify_tile g x y f =
     (case norm_index (length g) y of
        Inl e \<Rightarrow> Inl e
      | Inr j \<Rightarrow>
          (case norm_index (length (g ! j)) x of
             Inl e \<Rightarrow> Inl e
           | Inr i \<Rightarrow> Inr (g[j := (g ! j)[i := f (g ! j ! i)]])))"


definition in_bounds :: "dungeon \<Rightarrow> int \<Rightarrow> int \<Rightarrow> bool" where
  "in_bounds d x y \<longleftrightarrow> 0 \<le> x \<and> x < width d \<and> 0 \<le> y \<and> y < height d"


section \<open>dungeon.py: field of view\<close>

text \<open>
  The body of the loop of \<^verbatim>\<open>has_line_of_sight\<close> in two parts: the test whether the
  cell the walk stands on blocks sight, and the Bresenham update of the error term and the
  cell.
\<close>

definition blocks_sight :: "dungeon \<Rightarrow> int \<Rightarrow> int \<Rightarrow> int \<Rightarrow> int \<Rightarrow> error + bool" where
  "blocks_sight d x0 y0 x1 y1 =
     (if in_bounds d x0 y0
      then (case tile_at (grid d) x0 y0 of
              Inl e \<Rightarrow> Inl e
            | Inr t \<Rightarrow> Inr (\<not> is_transparent t \<and> (x0 \<noteq> x1 \<or> y0 \<noteq> y1)))
      else Inr False)"

definition bresenham_step :: "int \<Rightarrow> int \<Rightarrow> int \<Rightarrow> int \<Rightarrow> int \<times> int \<times> int \<Rightarrow> int \<times> int \<times> int" where
  "bresenham_step dx dy sx sy s =
     (case s of (err, x0, y0) \<Rightarrow>
        let e2 = 2 * err;
            err1 = (if e2 > - dy then err - dy else err);
            x0' = (if e2 > - dy then x0 + sx else x0);
            err2 = (if e2 < dx then err1 + dx else err1);
            y0' = (if e2 < dx then y0 + sy else y0)
        in (err2, x0', y0'))"

text \<open>
  The loop itself.  \<open>(x0, y0)\<close> is the cell the walk stands on and \<open>err\<close> the running
  error term; \<open>dx\<close>, \<open>dy\<close>, \<open>sx\<close>, \<open>sy\<close> and the target \<open>(x1, y1)\<close> stay fixed.
\<close>

partial_function (option) los_walk ::
  "dungeon \<Rightarrow> int \<Rightarrow> int \<Rightarrow> int \<Rightarrow> int \<Rightarrow> int \<Rightarrow> int \<Rightarrow> int \<Rightarrow> int \<Rightarrow> int
     \<Rightarrow> (error + bool) option" where
  "los_walk d dx dy sx sy x1 y1 err x0 y0 =
     (if \<not> (x0 \<noteq> x1 \<or> y0 \<noteq> y1) then Some (Inr True)
      else
        case blocks_sight d x0 y0 x1 y1 of
          Inl e \<Rightarrow> Some (Inl e)
        | Inr blocked \<Rightarrow>
            if blocked then Some (Inr False)
            else
              case bresenham_step dx dy sx sy (err, x0, y0) of
                (err', x0', y0') \<Rightarrow> los_walk d dx dy sx sy x1 y1 err' x0' y0')"

declare los_walk.simps [code]

definition has_line_of_sight ::
  "dungeon \<Rightarrow> int \<Rightarrow> int \<Rightarrow> int \<Rightarrow> int \<Rightarrow> (error + bool) option" where
  "has_line_of_sight d x0 y0 x1 y1 =
     (let dx = \<bar>x1 - x0\<bar>;
          dy = \<bar>y1 - y0\<bar>;
          sx = (if x0 < x1 then 1 else - 1);
          sy = (if y0 < y1 then 1 else - 1);
          err = dx - dy
      in los_walk d dx dy sx sy x1 y1 err x0 y0)"

text \<open>The reset loops of \<^verbatim>\<open>compute_fov\<close>: \<^verbatim>\<open>self.grid[y][x].visible = False\<close>.\<close>

fun clear_row :: "tile list list \<Rightarrow> int \<Rightarrow> int list \<Rightarrow> error + tile list list" where
  "clear_row g y [] = Inr g"
| "clear_row g y (x # xs) =
     (case modify_tile g x y (\<lambda>t. t\<lparr>visible := False\<rparr>) of
        Inl e \<Rightarrow> Inl e
      | Inr g' \<Rightarrow> clear_row g' y xs)"

fun clear_rows :: "tile list list \<Rightarrow> int list \<Rightarrow> int list \<Rightarrow> error + tile list list" where
  "clear_rows g [] xs = Inr g"
| "clear_rows g (y # ys) xs =
     (case clear_row g y xs of
        Inl e \<Rightarrow> Inl e
      | Inr g' \<Rightarrow> clear_rows g' ys xs)"

text \<open>\<^verbatim>\<open>self.grid[y][x].visible = True\<close>, then \<^verbatim>\<open>self.grid[y][x].explored = True\<close>.\<close>

definition mark_seen :: "tile list list \<Rightarrow> int \<Rightarrow> int \<Rightarrow> error + tile list list" where
  "mark_seen g x y =
     (case modify_tile g x y (\<lambda>t. t\<lparr>visible := True\<rparr>) of
        Inl e \<Rightarrow> Inl e
      | Inr g' \<Rightarrow> modify_tile g' x y (\<lambda>t. t\<lparr>explored := True\<rparr>))"

text \<open>
  The test \<^verbatim>\<open>math.sqrt((x - player_x)**2 + (y - player_y)**2) > radius\<close> is computed in
  floating point.  The model takes it as a parameter \<open>far\<close>: \<open>far n r\<close> stands for
  \<^verbatim>\<open>math.sqrt(n) > r\<close>.  \<open>sqrt_gt\<close> is its value in exact arithmetic.
\<close>

type_synonym radius_test = "int \<Rightarrow> int \<Rightarrow> bool"

definition sqrt_gt :: radius_test where
  "sqrt_gt n r \<longleftrightarrow> r < 0 \<or> r * r < n"

text \<open>The scan loops of \<^verbatim>\<open>compute_fov\<close>, carrying the dungeon and the visible set.\<close>

fun scan_row ::
  "radius_test \<Rightarrow> int \<Rightarrow> int \<Rightarrow> int \<Rightarrow> int \<Rightarrow> dungeon \<times> pos set \<Rightarrow> int list
     \<Rightarrow> (error + dungeon \<times> pos set) option" where
  "scan_row far px py radius y dv [] = Some (Inr dv)"
| "scan_row far px py radius y dv (x # xs) =
     (if far ((x - px)\<^sup>2 + (y - py)\<^sup>2) radius then scan_row far px py radius y dv xs
      else
        case has_line_of_sight (fst dv) px py x y of
          None \<Rightarrow> None
        | Some (Inl e) \<Rightarrow> Some (Inl e)
        | Some (Inr False) \<Rightarrow> scan_row far px py radius y dv xs
        | Some (Inr True) \<Rightarrow>
            (case mark_seen (grid (fst dv)) x y of
               Inl e \<Rightarrow> Some (Inl e)
             | Inr g' \<Rightarrow>
                 scan_row far px py radius y
                   ((fst dv)\<lparr>grid := g'\<rparr>, insert (x, y) (snd dv)) xs))"

fun scan_rows ::
  "radius_test \<Rightarrow> int \<Rightarrow> int \<Rightarrow> int \<Rightarrow> dungeon \<times> pos set \<Rightarrow> int list \<Rightarrow> int list
     \<Rightarrow> (error + dungeon \<times> pos set) option" where
  "scan_rows far px py radius dv [] xs = Some (Inr dv)"
| "scan_rows far px py radius dv (y # ys) xs =
     (case scan_row far px py radius y dv xs of
        None \<Rightarrow> None
      | Some (Inl e) \<Rightarrow> Some (Inl e)
      | Some (Inr dv') \<Rightarrow> scan_rows far px py radius dv' ys xs)"

definition compute_fov ::
  "radius_test \<Rightarrow> dungeon \<Rightarrow> int \<Rightarrow> int \<Rightarrow> int \<Rightarrow> (error + dungeon \<times> pos set) option" where
  "compute_fov far d player_x player_y radius =
     (case clear_rows (grid d) (py_range 0 (height d)) (py_range 0 (width d)) of
        Inl e \<Rightarrow> Some (Inl e)
      | Inr g1 \<Rightarrow>
          (case mark_seen g1 player_x player_y of
             Inl e \<Rightarrow> Some (Inl e)
           | Inr g2 \<Rightarrow>
               scan_rows far player_x player_y radius (d\<lparr>grid := g2\<rparr>, {(player_x, player_y)})
                 (py_range (max 0 (player_y - radius)) (min (height d) (player_y + radius + 1)))
                 (py_range (max 0 (player_x - radius)) (min (width d) (player_x + radius + 1)))))"

section \<open>Notions used to state the properties\<close>

text \<open>
  A path on a walkability grid: consecutive cells are 4-neighbours and every cell after the
  first is in bounds and walkable.  The first cell only has to be in bounds, since \<open>astar\<close>
  never tests the start cell.
\<close>

definition adjacent4 :: "pos \<Rightarrow> pos \<Rightarrow> bool" where
  "adjacent4 p q \<longleftrightarrow> \<bar>fst p - fst q\<bar> + \<bar>snd p - snd q\<bar> = 1"

definition walkable_cell :: "walkgrid \<Rightarrow> pos \<Rightarrow> bool" where
  "walkable_cell g p \<longleftrightarrow> in_grid g p \<and> cell g p = Inr True"

fun walk_path :: "walkgrid \<Rightarrow> pos list \<Rightarrow> bool" where
  "walk_path g [] = False"
| "walk_path g [p] = in_grid g p"
| "walk_path g (p # q # ps) = (adjacent4 p q \<and> walkable_cell g q \<and> walk_path g (q # ps))"

definition path_from_to :: "walkgrid \<Rightarrow> pos \<Rightarrow> pos \<Rightarrow> pos list \<Rightarrow> bool" where
  "path_from_to g s t ps \<longleftrightarrow> ps \<noteq> [] \<and> hd ps = s \<and> last ps = t \<and> walk_path g ps"

text \<open>All rows of a grid have the length of the first one.\<close>

definition rect :: "'a list list \<Rightarrow> bool" where
  "rect g \<longleftrightarrow> (\<forall>row \<in> set g. length row = length (hd g))"

text \<open>The grid on which \<open>astar\<close> is shown not to return a shortest path.\<close>

definition detour_grid :: walkgrid where
  "detour_grid =
     [[True,  True,  True,  True,  False],
      [True,  False, False, True,  False],
      [True,  False, True,  True,  True],
      [True,  True,  True,  False, True],
      [False, True,  True,  True,  True]]"

text \<open>
  The state of the walk of \<open>has_line_of_sight\<close> when \<open>a\<close> steps in \<open>x\<close> and \<open>b\<close> steps in
  \<open>y\<close> remain to the target: the value of the error term there.
\<close>

definition bres_err :: "int \<Rightarrow> int \<Rightarrow> int \<Rightarrow> int \<Rightarrow> int" where
  "bres_err dx dy a b = dx - dy + a * dy - b * dx"

text \<open>The grid has \<open>height\<close> rows of \<open>width\<close> tiles each, as the constructor builds it.\<close>

definition grid_ok :: "dungeon \<Rightarrow> bool" where
  "grid_ok d \<longleftrightarrow>
     length (grid d) = nat (height d) \<and> (\<forall>row \<in> set (grid d). length row = nat (width d))"

text \<open>The tile kinds of a grid, cell by cell.\<close>

definition kinds :: "tile list list \<Rightarrow> tile_type list list" where
  "kinds g = map (map kind) g"

text \<open>Two dungeons of the same size whose tiles have the same kinds.\<close>

definition same_frame :: "dungeon \<Rightarrow> dungeon \<Rightarrow> bool" where
  "same_frame d d' \<longleftrightarrow>
     width d' = width d \<and> height d' = height d \<and> kinds (grid d') = kinds (grid d)"

text \<open>Every tile explored in \<open>g\<close> is explored in \<open>g'\<close>, cell by cell.\<close>

definition explored_kept :: "tile list list \<Rightarrow> tile list list \<Rightarrow> bool" where
  "explored_kept g g' \<longleftrightarrow> list_all2 (list_all2 (\<lambda>t t'. explored t \<longrightarrow> explored t')) g g'"

text \<open>
  A sequence of \<open>compute_fov\<close> calls on the same floor, each with its observer position and
  radius; the visible sets are dropped, the dungeon is threaded through.
\<close>

fun run_fov :: "radius_test \<Rightarrow> dungeon \<Rightarrow> (int \<times> int \<times> int) list \<Rightarrow> (error + dungeon) option" where
  "run_fov far d [] = Some (Inr d)"
| "run_fov far d (c # cs) =
     (case c of (px, py, radius) \<Rightarrow>
        (case compute_fov far d px py radius of
           None \<Rightarrow> None
         | Some (Inl e) \<Rightarrow> Some (Inl e)
         | Some (Inr (d', vis)) \<Rightarrow> run_fov far d' cs))"

text \<open>
  The cell \<open>w\<close> lies on the straight segment from \<open>p\<close> to \<open>t\<close>, strictly between its ends.
\<close>

definition strictly_between :: "pos \<Rightarrow> pos \<Rightarrow> pos \<Rightarrow> bool" where
  "strictly_between p w t \<longleftrightarrow>
     w \<noteq> p \<and> w \<noteq> t \<and>
     (fst w - fst p) * (snd t - snd p) = (snd w - snd p) * (fst t - fst p) \<and>
     min (fst p) (fst t) \<le> fst w \<and> fst w \<le> max (fst p) (fst t) \<and>
     min (snd p) (snd t) \<le> snd w \<and> snd w \<le> max (snd p) (snd t)"

text \<open>
  The caller of \<open>compute_fov\<close>, \<^verbatim>\<open>Dungeon.render\<close>: it first moves the player into the
  grid (four \<^verbatim>\<open>if\<close> statements in this order), then calls \<open>compute_fov\<close> inside
  \<^verbatim>\<open>try\<close>/\<^verbatim>\<open>except Exception\<close> and falls back to the set holding the player's position.
  Only the visible set that \<open>render\<close> goes on with is modelled.
\<close>

definition clamp_player :: "dungeon \<Rightarrow> pos \<Rightarrow> pos" where
  "clamp_player d p =
     (let x1 = (if fst p < 0 then 0 else fst p);
          y1 = (if snd p < 0 then 0 else snd p);
          x2 = (if x1 \<ge> width d then width d - 1 else x1);
          y2 = (if y1 \<ge> height d then height d - 1 else y1)
      in (x2, y2))"

definition render_visible_tiles :: "radius_test \<Rightarrow> dungeon \<Rightarrow> pos \<Rightarrow> int \<Rightarrow> pos set option" where
  "render_visible_tiles far d p radius =
     (let q = clamp_player d p in
      case compute_fov far d (fst q) (snd q) radius of
        None \<Rightarrow> None
      | Some (Inl e) \<Rightarrow> Some {q}
      | Some (Inr (d', vis)) \<Rightarrow> Some vis)"

text \<open>
  A floor of one row used in the examples: floor, wall, floor, the last tile already
  explored.
\<close>

definition wall_row :: dungeon where
  "wall_row =
     \<lparr>width = 3, height = 1,
      grid = [[Tile FLOOR, Tile WALL, (Tile FLOOR)\<lparr>explored := True\<rparr>]],
      rooms = [], player_start = None, stairs_down = None\<rparr>"

text \<open>
  Two walkability grids of the same shape that agree on every cell except possibly \<open>p\<close>.
\<close>

definition differ_only_at :: "walkgrid \<Rightarrow> walkgrid \<Rightarrow> pos \<Rightarrow> bool" where
  "differ_only_at g1 g2 p \<longleftrightarrow>
     length g1 = length g2 \<and>
     (\<forall>j < length g1. length (g1 ! j) = length (g2 ! j) \<and>
        (\<forall>i < length (g1 ! j). (int i, int j) \<noteq> p \<longrightarrow> g1 ! j ! i = g2 ! j ! i))"


section \<open>dungeon.py: the generator\<close>

text \<open>
  The generator draws from \<^verbatim>\<open>random\<close>.  The random source is a fixed sequence \<open>rnd\<close> of
  natural numbers and the state carries the number \<open>k\<close> of draws made so far, so every
  result the library could deliver is the result for some \<open>rnd\<close>.
  \<^verbatim>\<open>random.randint(a, b)\<close> raises \<^verbatim>\<open>ValueError\<close> on an empty range,
  \<^verbatim>\<open>random.choice(seq)\<close> raises \<^verbatim>\<open>IndexError\<close> on an empty sequence; \<open>choice_index\<close>
  gives the index of the chosen element.  \<open>choice_bool\<close> is
  \<^verbatim>\<open>random.choice([True, False])\<close> and \<open>chance\<close> a test \<^verbatim>\<open>random.random() < p\<close>.
\<close>

type_synonym rng = "nat \<Rightarrow> nat"








subsection \<open>Rooms\<close>




subsection \<open>Carving\<close>





text \<open>\<^verbatim>\<open>room.connected = True\<close> for the room at index \<open>i\<close>.\<close>

definition mark_connected :: "room list \<Rightarrow> nat \<Rightarrow> room list" where
  "mark_connected rs i = rs[i := (rs ! i)\<lparr>connected := True\<rparr>]"



subsection \<open>Room placement\<close>




subsection \<open>Connectivity repair\<close>













subsection \<open>Entrance, exit, doors and floor variants\<close>







subsection \<open>generate\<close>













section \<open>Notions used to state the search and connectivity properties\<close>

text \<open>
  A step of the search on a walkability grid leads to a 4-neighbour that is in bounds and
  walkable.  The invariant of the \<^verbatim>\<open>while open_set\<close> loop of \<open>astar\<close>: the nodes in the open
  set are distinct, in bounds and not closed; the keys of \<^verbatim>\<open>g_score\<close> are the closed and
  the open nodes; \<^verbatim>\<open>came_from\<close> leads to a closed node whose score is one less; and
  \<open>covered\<close> says that every walkable neighbour of a node is closed or open.
\<close>

definition wstep :: "walkgrid \<Rightarrow> (pos \<times> pos) set" where
  "wstep g = {(p, q). adjacent4 p q \<and> walkable_cell g q}"

definition nodes :: "astar_state \<Rightarrow> pos set" where
  "nodes st = snd ` set (open_set st)"

definition astar_base :: "walkgrid \<Rightarrow> pos \<Rightarrow> pos \<Rightarrow> astar_state \<Rightarrow> bool" where
  "astar_base g start goal st \<longleftrightarrow>
     distinct (map snd (open_set st)) \<and>
     (\<forall>p \<in> nodes st. in_grid g p) \<and>
     (\<forall>p \<in> closed_set st. in_grid g p) \<and>
     nodes st \<inter> closed_set st = {} \<and>
     dom (g_score st) = closed_set st \<union> nodes st \<and>
     start \<in> closed_set st \<union> nodes st \<and>
     goal \<notin> closed_set st \<and>
     (\<forall>n c. came_from st n = Some c \<longrightarrow>
        c \<in> closed_set st \<and> (\<exists>gc. g_score st c = Some gc \<and> g_score st n = Some (gc + 1))) \<and>
     (\<forall>n v. g_score st n = Some v \<longrightarrow> 0 \<le> v)"

definition covered :: "walkgrid \<Rightarrow> astar_state \<Rightarrow> pos \<Rightarrow> bool" where
  "covered g st c \<longleftrightarrow>
     (\<forall>n. adjacent4 c n \<and> walkable_cell g n \<longrightarrow> n \<in> closed_set st \<union> nodes st)"

section \<open>Properties of \<open>astar\<close>: the guards\<close>

text \<open>
  C5 (as amended).  \<open>astar\<close> returns the empty list when start or goal is out of bounds.
  Otherwise, when start and goal coincide it returns \<open>[start]\<close>, whether or not that cell
  is walkable, because the test \<^verbatim>\<open>start == goal\<close> comes before the walkability test of
  the goal.  Otherwise, when the goal cell is not walkable it returns the empty list.
\<close>

theorem astar_guards:
  "(\<not> in_grid g start \<or> \<not> in_grid g goal \<longrightarrow> astar g start goal = Some (Inr [])) \<and>
   (in_grid g start \<and> start = goal \<longrightarrow> astar g start goal = Some (Inr [start])) \<and>
   (in_grid g start \<and> in_grid g goal \<and> start \<noteq> goal \<and> cell g goal = Inr False
      \<longrightarrow> astar g start goal = Some (Inr []))"
  by (auto simp add: astar_def)

theorem astar_guards_witness:
  "astar [[True, False]] (0, 0) (5, 0) = Some (Inr []) \<and>
   astar [[True, False]] (1, 0) (1, 0) = Some (Inr [(1, 0)]) \<and>
   astar [[True, False]] (0, 0) (1, 0) = Some (Inr [])"
proof -
  have a: "\<not> in_grid [[True, False]] (5, 0)"
    by (simp add: in_grid_def grid_width_def grid_height_def)
  have b: "in_grid [[True, False]] (1, 0)" "in_grid [[True, False]] (0, 0)"
    by (simp_all add: in_grid_def grid_width_def grid_height_def)
  have c: "cell [[True, False]] (1, 0) = Inr False"
    by (simp add: cell_def py_get_def norm_index_def)
  have "astar [[True, False]] (0, 0) (5, 0) = Some (Inr [])"
    using astar_guards [of "[[True, False]]" "(0, 0)" "(5, 0)"] a by blast
  moreover have "astar [[True, False]] (1, 0) (1, 0) = Some (Inr [(1, 0)])"
    using astar_guards [of "[[True, False]]" "(1, 0)" "(1, 0)"] b by blast
  moreover have "astar [[True, False]] (0, 0) (1, 0) = Some (Inr [])"
    using astar_guards [of "[[True, False]]" "(0, 0)" "(1, 0)"] b c by simp
  ultimately show ?thesis by blast
qed

text \<open>
  C5 as stated fails: with start = goal on an in-bounds cell that is not walkable the
  result is the one-element path, not the empty list.
\<close>

theorem astar_guards_counterexample:
  "in_grid [[False]] (0, 0) \<and> cell [[False]] (0, 0) = Inr False \<and>
   astar [[False]] (0, 0) (0, 0) = Some (Inr [(0, 0)]) \<and>
   astar [[False]] (0, 0) (0, 0) \<noteq> Some (Inr [])"
  by (simp add: astar_def in_grid_def grid_width_def grid_height_def cell_def py_get_def
      norm_index_def)

section \<open>Properties of \<open>astar\<close>: the returned path need not be shortest\<close>

text \<open>
  C2.  On \<open>detour_grid\<close>, from \<open>(4, 4)\<close> to \<open>(1, 0)\<close>, \<open>astar\<close> returns a path of 10 cells
  although a path of 8 cells exists.  The node \<open>(3, 2)\<close> is first reached from \<open>(2, 2)\<close>
  and pushed with priority 9; when the better way through \<open>(4, 2)\<close> is found its entry stays
  in the heap with the old priority, and the goal, reached the long way round with
  priority 9, is popped first.
\<close>

theorem astar_not_shortest:
  "astar detour_grid (4, 4) (1, 0) =
     Some (Inr [(4, 4), (3, 4), (2, 4), (1, 4), (1, 3), (0, 3), (0, 2), (0, 1), (0, 0), (1, 0)]) \<and>
   path_from_to detour_grid (4, 4) (1, 0)
     [(4, 4), (4, 3), (4, 2), (3, 2), (3, 1), (3, 0), (2, 0), (1, 0)]"
proof
  show "astar detour_grid (4, 4) (1, 0) =
     Some (Inr [(4, 4), (3, 4), (2, 4), (1, 4), (1, 3), (0, 3), (0, 2), (0, 1), (0, 0), (1, 0)])"
    by code_simp
  show "path_from_to detour_grid (4, 4) (1, 0)
     [(4, 4), (4, 3), (4, 2), (3, 2), (3, 1), (3, 0), (2, 0), (1, 0)]"
    by code_simp
qed

theorem astar_not_shortest_witness:
  "\<exists>p q. astar detour_grid (4, 4) (1, 0) = Some (Inr p) \<and>
         path_from_to detour_grid (4, 4) (1, 0) q \<and> length q < length p"
proof -
  let ?p = "[(4, 4), (3, 4), (2, 4), (1, 4), (1, 3), (0, 3), (0, 2), (0, 1), (0, 0), (1, 0)] :: pos list"
  let ?q = "[(4, 4), (4, 3), (4, 2), (3, 2), (3, 1), (3, 0), (2, 0), (1, 0)] :: pos list"
  have "astar detour_grid (4, 4) (1, 0) = Some (Inr ?p)"
    and "path_from_to detour_grid (4, 4) (1, 0) ?q"
    using astar_not_shortest by simp_all
  moreover have "length ?q < length ?p" by simp
  ultimately show ?thesis by blast
qed

section \<open>The walk of \<open>has_line_of_sight\<close>\<close>

text \<open>
  With \<open>a\<close> steps in \<open>x\<close> and \<open>b\<close> steps in \<open>y\<close> remaining to the target, the walk stands
  on \<open>(x1 - sx * a, y1 - sy * b)\<close> with error term \<open>bres_err dx dy a b\<close>.  One step of
  the loop lowers \<open>a\<close>, \<open>b\<close> or both by one, and never below zero.
\<close>

lemma bres_step_ab:
  fixes a b dx dy :: int
  assumes a: "0 \<le> a" "a \<le> dx" and b: "0 \<le> b" "b \<le> dy" and ne: "a \<noteq> 0 \<or> b \<noteq> 0"
    and sx: "sx = 1 \<or> sx = - 1" and sy: "sy = 1 \<or> sy = - 1"
  shows "\<exists>a' b'. bresenham_step dx dy sx sy (bres_err dx dy a b, x1 - sx * a, y1 - sy * b)
             = (bres_err dx dy a' b', x1 - sx * a', y1 - sy * b') \<and>
           0 \<le> a' \<and> a' \<le> a \<and> 0 \<le> b' \<and> b' \<le> b \<and> a' + b' < a + b \<and>
           a - 1 \<le> a' \<and> b - 1 \<le> b' \<and>
           (a' = a - 1 \<longleftrightarrow> 2 * bres_err dx dy a b > - dy) \<and>
           (b' = b - 1 \<longleftrightarrow> 2 * bres_err dx dy a b < dx)"
proof -
  let ?E = "bres_err dx dy a b"
  let ?xs = "2 * ?E > - dy" and ?ys = "2 * ?E < dx"
  have dx0: "0 \<le> dx" and dy0: "0 \<le> dy" using a b by linarith+
  have nox: "\<not> ?xs" if "a = 0"
  proof -
    from that ne b have "1 \<le> b" by linarith
    then have "0 \<le> (b - 1) * dx" using dx0 by simp
    moreover have "?E = - ((b - 1) * dx) - dy"
      using that by (simp add: bres_err_def algebra_simps)
    ultimately show ?thesis using dy0 by linarith
  qed
  have noy: "\<not> ?ys" if "b = 0"
  proof -
    from that ne a have "1 \<le> a" by linarith
    then have "0 \<le> (a - 1) * dy" using dy0 by simp
    moreover have "?E = dx + (a - 1) * dy"
      using that by (simp add: bres_err_def algebra_simps)
    ultimately show ?thesis using dx0 by linarith
  qed
  have prog: "?xs \<or> ?ys"
  proof (rule ccontr)
    assume "\<not> (?xs \<or> ?ys)"
    then have "dx = 0" "dy = 0" using dx0 dy0 by linarith+
    with a b ne show False by linarith
  qed
  define a' where "a' = (if ?xs then a - 1 else a)"
  define b' where "b' = (if ?ys then b - 1 else b)"
  have e: "bresenham_step dx dy sx sy (?E, x1 - sx * a, y1 - sy * b)
             = (bres_err dx dy a' b', x1 - sx * a', y1 - sy * b')"
    using sx sy by (auto simp add: bresenham_step_def Let_def a'_def b'_def bres_err_def algebra_simps)
  have "0 \<le> a'" using nox a by (cases "a = 0") (auto simp: a'_def)
  moreover have "0 \<le> b'" using noy b by (cases "b = 0") (auto simp: b'_def)
  moreover have "a' + b' < a + b" using prog by (auto simp: a'_def b'_def)
  ultimately show ?thesis using e by (intro exI[of _ a'] exI[of _ b']) (auto simp: a'_def b'_def)
qed

lemma los_walk_at_target:
  "los_walk d dx dy sx sy x1 y1 err x1 y1 = Some (Inr True)"
  by (subst los_walk.simps) simp

lemma los_walk_ab_unfold:
  assumes "a \<noteq> 0 \<or> b \<noteq> 0" and "sx = 1 \<or> sx = - 1" and "sy = 1 \<or> sy = - 1"
    and "bresenham_step dx dy sx sy (bres_err dx dy a b, x1 - sx * a, y1 - sy * b)
           = (bres_err dx dy a' b', x1 - sx * a', y1 - sy * b')"
  shows "los_walk d dx dy sx sy x1 y1 (bres_err dx dy a b) (x1 - sx * a) (y1 - sy * b) =
           (case blocks_sight d (x1 - sx * a) (y1 - sy * b) x1 y1 of
              Inl e \<Rightarrow> Some (Inl e)
            | Inr blocked \<Rightarrow>
                if blocked then Some (Inr False)
                else los_walk d dx dy sx sy x1 y1 (bres_err dx dy a' b')
                       (x1 - sx * a') (y1 - sy * b'))"
proof -
  have "x1 - sx * a \<noteq> x1 \<or> y1 - sy * b \<noteq> y1"
    using assms(1-3) by auto
  then show ?thesis
    by (subst los_walk.simps) (simp add: assms(4) split: sum.splits)
qed

text \<open>How \<open>has_line_of_sight\<close> starts the walk.\<close>

lemma has_line_of_sight_ab:
  fixes x0 y0 x1 y1 :: int
  defines "dx \<equiv> \<bar>x1 - x0\<bar>" and "dy \<equiv> \<bar>y1 - y0\<bar>"
    and "sx \<equiv> (if x0 < x1 then 1 else - 1 :: int)" and "sy \<equiv> (if y0 < y1 then 1 else - 1 :: int)"
  shows "has_line_of_sight d x0 y0 x1 y1 =
           los_walk d dx dy sx sy x1 y1 (bres_err dx dy dx dy) (x1 - sx * dx) (y1 - sy * dy)"
proof -
  have "x1 - sx * dx = x0" "y1 - sy * dy = y0"
    by (auto simp: dx_def dy_def sx_def sy_def)
  moreover have "bres_err dx dy dx dy = dx - dy"
    by (simp add: bres_err_def algebra_simps)
  ultimately show ?thesis
    by (simp add: has_line_of_sight_def Let_def dx_def dy_def sx_def sy_def)
qed

subsection \<open>The walk reads tiles in bounds only, and always ends\<close>

lemma norm_index_in_range:
  "0 \<le> i \<Longrightarrow> i < int n \<Longrightarrow> norm_index n i = Inr (nat i)"
  by (simp add: norm_index_def)

lemma tile_at_in_bounds:
  assumes "grid_ok d" and "in_bounds d x y"
  shows "tile_at (grid d) x y = Inr (grid d ! nat y ! nat x)"
proof -
  from assms have y: "0 \<le> y" "y < int (length (grid d))"
    by (auto simp: grid_ok_def in_bounds_def)
  then have "grid d ! nat y \<in> set (grid d)" by simp
  with assms have x: "0 \<le> x" "x < int (length (grid d ! nat y))"
    by (auto simp: grid_ok_def in_bounds_def)
  show ?thesis
    using x y by (simp add: tile_at_def py_get_def norm_index_in_range)
qed

lemma blocks_sight_ok:
  assumes "grid_ok d"
  shows "blocks_sight d x y x1 y1 =
           Inr (in_bounds d x y \<and> kind (grid d ! nat y ! nat x) = WALL \<and> (x \<noteq> x1 \<or> y \<noteq> y1))"
  using tile_at_in_bounds [OF assms]
  by (auto simp: blocks_sight_def is_transparent_def)

lemma los_walk_total:
  assumes ok: "grid_ok d" and sx: "sx = 1 \<or> sx = - 1" and sy: "sy = 1 \<or> sy = - 1"
    and "0 \<le> a" "a \<le> dx" "0 \<le> b" "b \<le> dy"
  shows "\<exists>r. los_walk d dx dy sx sy x1 y1 (bres_err dx dy a b) (x1 - sx * a) (y1 - sy * b)
              = Some (Inr r)"
  using assms(4-)
proof (induction "nat (a + b)" arbitrary: a b rule: less_induct)
  case less
  show ?case
  proof (cases "a = 0 \<and> b = 0")
    case True
    then show ?thesis by (auto simp add: los_walk_at_target)
  next
    case False
    then have ne: "a \<noteq> 0 \<or> b \<noteq> 0" by simp
    from bres_step_ab [OF less.prems ne sx sy, of x1 y1]
    obtain a' b' where
      st: "bresenham_step dx dy sx sy (bres_err dx dy a b, x1 - sx * a, y1 - sy * b)
             = (bres_err dx dy a' b', x1 - sx * a', y1 - sy * b')"
      and bd: "0 \<le> a'" "a' \<le> a" "0 \<le> b'" "b' \<le> b" "a' + b' < a + b"
      by blast
    have "nat (a' + b') < nat (a + b)" using bd by linarith
    from less.hyps [OF this] bd less.prems
    obtain r where "los_walk d dx dy sx sy x1 y1 (bres_err dx dy a' b')
                      (x1 - sx * a') (y1 - sy * b') = Some (Inr r)"
      by fastforce
    then show ?thesis
      by (auto simp add: los_walk_ab_unfold [OF ne sx sy st] blocks_sight_ok [OF ok])
  qed
qed

lemma has_line_of_sight_total:
  assumes "grid_ok d"
  shows "\<exists>r. has_line_of_sight d x0 y0 x1 y1 = Some (Inr r)"
  unfolding has_line_of_sight_ab
  by (rule los_walk_total [OF assms]) auto

subsection \<open>The result depends on the size of the grid and the tile kinds only\<close>

lemma los_walk_cong:
  assumes ok: "grid_ok d" "grid_ok d'"
    and same: "width d' = width d" "height d' = height d" "kinds (grid d') = kinds (grid d)"
    and sx: "sx = 1 \<or> sx = - 1" and sy: "sy = 1 \<or> sy = - 1"
    and "0 \<le> a" "a \<le> dx" "0 \<le> b" "b \<le> dy"
  shows "los_walk d' dx dy sx sy x1 y1 (bres_err dx dy a b) (x1 - sx * a) (y1 - sy * b)
       = los_walk d dx dy sx sy x1 y1 (bres_err dx dy a b) (x1 - sx * a) (y1 - sy * b)"
  using assms(8-)
proof (induction "nat (a + b)" arbitrary: a b rule: less_induct)
  case less
  show ?case
  proof (cases "a = 0 \<and> b = 0")
    case True
    then show ?thesis by (simp add: los_walk_at_target)
  next
    case False
    then have ne: "a \<noteq> 0 \<or> b \<noteq> 0" by simp
    from bres_step_ab [OF less.prems ne sx sy, of x1 y1]
    obtain a' b' where
      st: "bresenham_step dx dy sx sy (bres_err dx dy a b, x1 - sx * a, y1 - sy * b)
             = (bres_err dx dy a' b', x1 - sx * a', y1 - sy * b')"
      and bd: "0 \<le> a'" "a' \<le> a" "0 \<le> b'" "b' \<le> b" "a' + b' < a + b"
      by blast
    have "nat (a' + b') < nat (a + b)" using bd by linarith
    from less.hyps [OF this] bd less.prems
    have ih: "los_walk d' dx dy sx sy x1 y1 (bres_err dx dy a' b') (x1 - sx * a') (y1 - sy * b')
            = los_walk d dx dy sx sy x1 y1 (bres_err dx dy a' b') (x1 - sx * a') (y1 - sy * b')"
      by fastforce
    have kd: "kind (grid d' ! nat y ! nat x) = kind (grid d ! nat y ! nat x)"
      if "in_bounds d x y" for x y
    proof -
      from that ok(1) have y: "nat y < length (grid d)"
        by (auto simp: grid_ok_def in_bounds_def)
      then have "grid d ! nat y \<in> set (grid d)" by simp
      with that ok(1) have x: "nat x < length (grid d ! nat y)"
        by (auto simp: grid_ok_def in_bounds_def)
      have "kinds (grid d') ! nat y ! nat x = kinds (grid d) ! nat y ! nat x"
        by (simp add: same)
      moreover have "length (grid d') = length (grid d)"
        using ok same by (simp add: grid_ok_def)
      moreover have "length (grid d' ! nat y) = length (grid d ! nat y)"
        using ok same y calculation(2) by (simp add: grid_ok_def)
      ultimately show ?thesis using x y by (simp add: kinds_def)
    qed
    have "blocks_sight d' x y x1 y1 = blocks_sight d x y x1 y1" for x y
      using kd [of x y] by (auto simp: blocks_sight_ok ok in_bounds_def same)
    then show ?thesis
      by (simp add: los_walk_ab_unfold [OF ne sx sy st] ih split: sum.splits)
  qed
qed

lemma has_line_of_sight_cong:
  assumes "grid_ok d" "grid_ok d'"
    and "width d' = width d" "height d' = height d" "kinds (grid d') = kinds (grid d)"
  shows "has_line_of_sight d' x0 y0 x1 y1 = has_line_of_sight d x0 y0 x1 y1"
  unfolding has_line_of_sight_ab
  by (rule los_walk_cong [OF assms]) auto

subsection \<open>Three outcomes of the walk\<close>


text \<open>
  A wall on a cell of the grid that lies on the straight line to the target, \<open>ap\<close> steps in
  \<open>x\<close> and \<open>bp\<close> steps in \<open>y\<close> before it: the walk cannot pass it.  While \<open>a = ap\<close> and
  \<open>b > bp\<close> the error term forbids a step in \<open>x\<close>, and symmetrically, so the walk comes to
  stand on the wall unless it was blocked earlier.
\<close>

lemma los_walk_blocked:
  assumes ok: "grid_ok d" and sx: "sx = 1 \<or> sx = - 1" and sy: "sy = 1 \<or> sy = - 1"
    and p: "0 \<le> ap" "0 \<le> bp" "ap \<noteq> 0 \<or> bp \<noteq> 0" "ap * dy = bp * dx"
    and wall: "in_bounds d (x1 - sx * ap) (y1 - sy * bp)"
      "kind (grid d ! nat (y1 - sy * bp) ! nat (x1 - sx * ap)) = WALL"
    and "ap \<le> a" "a \<le> dx" "bp \<le> b" "b \<le> dy"
  shows "los_walk d dx dy sx sy x1 y1 (bres_err dx dy a b) (x1 - sx * a) (y1 - sy * b)
           = Some (Inr False)"
  using assms(10-)
proof (induction "nat (a + b)" arbitrary: a b rule: less_induct)
  case less
  have a0: "0 \<le> a" and b0: "0 \<le> b" using less.prems p by linarith+
  have dx0: "0 \<le> dx" and dy0: "0 \<le> dy" using less.prems a0 b0 by linarith+
  have ne: "a \<noteq> 0 \<or> b \<noteq> 0" using less.prems p by linarith
  from bres_step_ab [OF a0 less.prems(2) b0 less.prems(4) ne sx sy, of x1 y1]
  obtain a' b' where
    st: "bresenham_step dx dy sx sy (bres_err dx dy a b, x1 - sx * a, y1 - sy * b)
           = (bres_err dx dy a' b', x1 - sx * a', y1 - sy * b')"
    and bd: "0 \<le> a'" "a' \<le> a" "0 \<le> b'" "b' \<le> b" "a' + b' < a + b"
       "a - 1 \<le> a'" "b - 1 \<le> b'"
    and xs: "a' = a - 1 \<longleftrightarrow> 2 * bres_err dx dy a b > - dy"
    and ys: "b' = b - 1 \<longleftrightarrow> 2 * bres_err dx dy a b < dx"
    by blast
  show ?case
  proof (cases "a = ap \<and> b = bp")
    case True
    have "x1 - sx * a \<noteq> x1 \<or> y1 - sy * b \<noteq> y1"
      using ne sx sy by auto
    with True wall have "blocks_sight d (x1 - sx * a) (y1 - sy * b) x1 y1 = Inr True"
      by (simp add: blocks_sight_ok [OF ok])
    then show ?thesis
      by (simp add: los_walk_ab_unfold [OF ne sx sy st])
  next
    case False
    have a'ap: "ap \<le> a'"
    proof (cases "a = ap")
      case True
      with False less.prems have "bp + 1 \<le> b" by linarith
      then have "0 \<le> (b - bp - 1) * dx" using dx0 by simp
      moreover have "bres_err dx dy a b = - ((b - bp - 1) * dx) - dy"
        using True p(4) by (simp add: bres_err_def algebra_simps)
      ultimately have "\<not> 2 * bres_err dx dy a b > - dy" using dy0 by linarith
      with xs bd True show ?thesis by linarith
    next
      case False
      with less.prems bd show ?thesis by linarith
    qed
    have b'bp: "bp \<le> b'"
    proof (cases "b = bp")
      case True
      with False less.prems have "ap + 1 \<le> a" by linarith
      then have "0 \<le> (a - ap - 1) * dy" using dy0 by simp
      moreover have "bres_err dx dy a b = dx + (a - ap - 1) * dy"
        using True p(4) by (simp add: bres_err_def algebra_simps)
      ultimately have "\<not> 2 * bres_err dx dy a b < dx" using dx0 by linarith
      with ys bd True show ?thesis by linarith
    next
      case False
      with less.prems bd show ?thesis by linarith
    qed
    have "nat (a' + b') < nat (a + b)" using bd by linarith
    from less.hyps [OF this a'ap _ b'bp] bd less.prems
    have ih: "los_walk d dx dy sx sy x1 y1 (bres_err dx dy a' b') (x1 - sx * a') (y1 - sy * b')
                = Some (Inr False)"
      by linarith
    obtain bl where "blocks_sight d (x1 - sx * a) (y1 - sy * b) x1 y1 = Inr bl"
      by (simp add: blocks_sight_ok [OF ok])
    then show ?thesis
      by (simp add: los_walk_ab_unfold [OF ne sx sy st] ih)
  qed
qed

text \<open>The walk tests the cell it starts from: an observer standing on a wall sees no other cell.\<close>

lemma has_line_of_sight_from_wall:
  assumes "grid_ok d" and "in_bounds d x0 y0" and "kind (grid d ! nat y0 ! nat x0) = WALL"
    and "x0 \<noteq> x1 \<or> y0 \<noteq> y1"
  shows "has_line_of_sight d x0 y0 x1 y1 = Some (Inr False)"
  unfolding has_line_of_sight_def Let_def
  using assms by (subst los_walk.simps) (auto simp add: blocks_sight_ok)

lemma has_line_of_sight_self:
  "has_line_of_sight d x y x y = Some (Inr True)"
  by (simp add: has_line_of_sight_def los_walk_at_target)

section \<open>Tile updates and the scan of \<open>compute_fov\<close>\<close>


lemma modify_tile_in_range:
  assumes "0 \<le> y" "nat y < length g" "0 \<le> x" "nat x < length (g ! nat y)"
  shows "modify_tile g x y f = Inr (g[nat y := (g ! nat y)[nat x := f (g ! nat y ! nat x)]])"
  using assms by (simp add: modify_tile_def norm_index_in_range)

lemma norm_index_less: "norm_index n i = Inr k \<Longrightarrow> k < n"
  by (auto simp add: norm_index_def Let_def split: if_splits)

lemma modify_tile_shape:
  assumes "modify_tile g x y f = Inr g'"
  shows "\<exists>j i. j < length g \<and> i < length (g ! j) \<and> g' = g[j := (g ! j)[i := f (g ! j ! i)]]"
proof -
  from assms obtain j where j: "norm_index (length g) y = Inr j"
    by (auto simp add: modify_tile_def split: sum.splits)
  with assms obtain i where i: "norm_index (length (g ! j)) x = Inr i"
    by (auto simp add: modify_tile_def split: sum.splits)
  from assms j i have "g' = g[j := (g ! j)[i := f (g ! j ! i)]]"
    by (simp add: modify_tile_def)
  with norm_index_less [OF j] norm_index_less [OF i] show ?thesis by blast
qed

lemma kinds_update:
  assumes "kind (f (g ! j ! i)) = kind (g ! j ! i)" and "j < length g" and "i < length (g ! j)"
  shows "kinds (g[j := (g ! j)[i := f (g ! j ! i)]]) = kinds g"
proof -
  have "map kind ((g ! j)[i := f (g ! j ! i)]) = (map kind (g ! j))[i := map kind (g ! j) ! i]"
    using assms by (simp add: map_update)
  then have row: "map kind ((g ! j)[i := f (g ! j ! i)]) = map kind (g ! j)"
    by simp
  have "kinds (g[j := r]) = (kinds g)[j := map kind r]" for r
    by (simp add: kinds_def map_update)
  then have "kinds (g[j := (g ! j)[i := f (g ! j ! i)]]) = (kinds g)[j := map kind (g ! j)]"
    by (simp only: row)
  also have "\<dots> = kinds g"
    using assms by (simp add: kinds_def list_update_same_conv)
  finally show ?thesis .
qed

lemma modify_tile_kinds:
  assumes "modify_tile g x y f = Inr g'" and "\<And>t. kind (f t) = kind t"
  shows "kinds g' = kinds g"
proof -
  from modify_tile_shape [OF assms(1)] obtain j i where
    "j < length g" "i < length (g ! j)" "g' = g[j := (g ! j)[i := f (g ! j ! i)]]"
    by blast
  then show ?thesis using kinds_update [of f g j i] assms(2) by simp
qed

lemma explored_kept_refl: "explored_kept g g"
  by (simp add: explored_kept_def list_all2_refl)

lemma explored_kept_trans:
  assumes "explored_kept g g'" and "explored_kept g' g''"
  shows "explored_kept g g''"
proof -
  let ?R = "\<lambda>t t'. explored t \<longrightarrow> explored t'"
  have inner: "list_all2 ?R a c" if "list_all2 ?R a b" "list_all2 ?R b c" for a b c
    using that(1,2) by (rule list_all2_trans [rotated]) simp
  show ?thesis
    using assms unfolding explored_kept_def
    by (rule list_all2_trans [rotated]) (rule inner)
qed

lemma modify_tile_explored:
  assumes "modify_tile g x y f = Inr g'" and "\<And>t. explored t \<longrightarrow> explored (f t)"
  shows "explored_kept g g'"
proof -
  from modify_tile_shape [OF assms(1)] obtain j i where
    ji: "j < length g" "i < length (g ! j)" and g': "g' = g[j := (g ! j)[i := f (g ! j ! i)]]"
    by blast
  have "list_all2 (\<lambda>t t'. explored t \<longrightarrow> explored t') (g ! j) ((g ! j)[i := f (g ! j ! i)])"
    using ji assms(2) by (simp add: list_all2_conv_all_nth nth_list_update)
  then show ?thesis
    unfolding explored_kept_def g'
    using ji by (simp add: list_all2_conv_all_nth nth_list_update)
qed


lemma grid_ok_kinds:
  "grid_ok d \<longleftrightarrow>
     length (kinds (grid d)) = nat (height d) \<and> (\<forall>r \<in> set (kinds (grid d)). length r = nat (width d))"
  by (auto simp add: grid_ok_def kinds_def)

lemma same_frame_refl: "same_frame d d"
  by (simp add: same_frame_def)

lemma same_frame_grid_ok: "same_frame d d' \<Longrightarrow> grid_ok d \<Longrightarrow> grid_ok d'"
  by (simp add: grid_ok_kinds same_frame_def)

lemma same_frame_in_bounds: "same_frame d d' \<Longrightarrow> in_bounds d' x y = in_bounds d x y"
  by (simp add: same_frame_def in_bounds_def)

lemma same_frame_grid_update:
  "same_frame d d' \<Longrightarrow> kinds g' = kinds (grid d') \<Longrightarrow> same_frame d (d'\<lparr>grid := g'\<rparr>)"
  by (simp add: same_frame_def)

lemma same_frame_los:
  assumes "grid_ok d" and "same_frame d d'"
  shows "has_line_of_sight d' x0 y0 x1 y1 = has_line_of_sight d x0 y0 x1 y1"
  using assms same_frame_grid_ok [OF assms(2,1)]
  by (intro has_line_of_sight_cong) (simp_all add: same_frame_def)

lemma row_length:
  assumes "grid_ok d" and "in_bounds d x y"
  shows "nat y < length (grid d)" and "nat x < length (grid d ! nat y)"
proof -
  from assms show y: "nat y < length (grid d)"
    by (auto simp add: grid_ok_def in_bounds_def)
  then have "grid d ! nat y \<in> set (grid d)" by simp
  with assms show "nat x < length (grid d ! nat y)"
    by (auto simp add: grid_ok_def in_bounds_def)
qed

lemma modify_tile_in_bounds:
  assumes "grid_ok d" and "in_bounds d x y"
  shows "modify_tile (grid d) x y f =
           Inr ((grid d)[nat y := (grid d ! nat y)[nat x := f (grid d ! nat y ! nat x)]])"
  using row_length [OF assms] assms(2)
  by (intro modify_tile_in_range) (simp_all add: in_bounds_def)

lemma mark_seen_facts:
  assumes "mark_seen g x y = Inr g'"
  shows "kinds g' = kinds g" and "explored_kept g g'"
proof -
  from assms obtain g1 where
    a: "modify_tile g x y (\<lambda>t. t\<lparr>visible := True\<rparr>) = Inr g1"
    and b: "modify_tile g1 x y (\<lambda>t. t\<lparr>explored := True\<rparr>) = Inr g'"
    by (auto simp add: mark_seen_def split: sum.splits)
  show "kinds g' = kinds g"
    using modify_tile_kinds [OF a] modify_tile_kinds [OF b] by simp
  show "explored_kept g g'"
    using modify_tile_explored [OF a] modify_tile_explored [OF b]
    by (auto intro: explored_kept_trans)
qed

lemma mark_seen_in_bounds:
  assumes "grid_ok d" and "in_bounds d x y"
  shows "\<exists>g'. mark_seen (grid d) x y = Inr g'"
proof -
  let ?g1 = "(grid d)[nat y := (grid d ! nat y)[nat x := (grid d ! nat y ! nat x)\<lparr>visible := True\<rparr>]]"
  have a: "modify_tile (grid d) x y (\<lambda>t. t\<lparr>visible := True\<rparr>) = Inr ?g1"
    by (rule modify_tile_in_bounds [OF assms])
  have "kinds ?g1 = kinds (grid d)"
    using modify_tile_kinds [OF a] by simp
  then have sf: "same_frame d (d\<lparr>grid := ?g1\<rparr>)"
    by (simp add: same_frame_def)
  have "\<exists>g'. modify_tile (grid (d\<lparr>grid := ?g1\<rparr>)) x y (\<lambda>t. t\<lparr>explored := True\<rparr>) = Inr g'"
    using modify_tile_in_bounds [OF same_frame_grid_ok [OF sf assms(1)], of x y] assms(2)
    by (simp add: in_bounds_def)
  then show ?thesis
    using a by (simp add: mark_seen_def)
qed

lemma scan_row_inv:
  assumes ok: "grid_ok d"
    and rng: "\<forall>x \<in> set xs. in_bounds d x y"
    and step: "\<And>d1 vis x g'. same_frame d d1 \<Longrightarrow> Q (d1, vis) \<Longrightarrow> x \<in> set xs \<Longrightarrow>
                 has_line_of_sight d px py x y = Some (Inr True) \<Longrightarrow>
                 mark_seen (grid d1) x y = Inr g' \<Longrightarrow>
                 Q (d1\<lparr>grid := g'\<rparr>, insert (x, y) vis)"
    and "same_frame d (fst dv)" and "Q dv"
  shows "\<exists>dv'. scan_row far px py r y dv xs = Some (Inr dv') \<and> same_frame d (fst dv') \<and> Q dv'"
  using rng step assms(4,5)
proof (induction xs arbitrary: dv)
  case Nil
  then show ?case by simp
next
  case (Cons x xs)
  have ih: "\<exists>dv'. scan_row far px py r y dv1 xs = Some (Inr dv') \<and> same_frame d (fst dv') \<and> Q dv'"
    if "same_frame d (fst dv1)" "Q dv1" for dv1
    using Cons.IH [of dv1] Cons.prems(1,2) that by simp
  obtain d1 vis where dv: "dv = (d1, vis)" by (cases dv)
  have sf: "same_frame d d1" and q: "Q (d1, vis)"
    using Cons.prems dv by simp_all
  have los: "has_line_of_sight d1 px py x y = has_line_of_sight d px py x y"
    by (rule same_frame_los [OF ok sf])
  obtain b where b: "has_line_of_sight d px py x y = Some (Inr b)"
    using has_line_of_sight_total [OF ok] by blast
  show ?case
  proof (cases "far ((x - px)\<^sup>2 + (y - py)\<^sup>2) r \<or> \<not> b")
    case True
    then show ?thesis
      using ih [of dv] Cons.prems(3,4) by (auto simp add: dv los b)
  next
    case False
    have "in_bounds d1 x y"
      using Cons.prems(1) by (simp add: same_frame_in_bounds [OF sf])
    from mark_seen_in_bounds [OF same_frame_grid_ok [OF sf ok] this]
    obtain g' where g': "mark_seen (grid d1) x y = Inr g'" by blast
    have "same_frame d (d1\<lparr>grid := g'\<rparr>)"
      by (rule same_frame_grid_update [OF sf mark_seen_facts(1) [OF g']])
    moreover have "Q (d1\<lparr>grid := g'\<rparr>, insert (x, y) vis)"
      using Cons.prems(2) [OF sf q _ _ g'] False b by simp
    ultimately show ?thesis
      using ih [of "(d1\<lparr>grid := g'\<rparr>, insert (x, y) vis)"] False
      by (simp add: dv los b g')
  qed
qed

lemma scan_rows_inv:
  assumes ok: "grid_ok d"
    and rng: "\<forall>y \<in> set ys. \<forall>x \<in> set xs. in_bounds d x y"
    and step: "\<And>d1 vis x y g'. same_frame d d1 \<Longrightarrow> Q (d1, vis) \<Longrightarrow> x \<in> set xs \<Longrightarrow> y \<in> set ys \<Longrightarrow>
                 has_line_of_sight d px py x y = Some (Inr True) \<Longrightarrow>
                 mark_seen (grid d1) x y = Inr g' \<Longrightarrow>
                 Q (d1\<lparr>grid := g'\<rparr>, insert (x, y) vis)"
    and "same_frame d (fst dv)" and "Q dv"
  shows "\<exists>dv'. scan_rows far px py r dv ys xs = Some (Inr dv') \<and> same_frame d (fst dv') \<and> Q dv'"
  using rng step assms(4,5)
proof (induction ys arbitrary: dv)
  case Nil
  then show ?case by simp
next
  case (Cons y ys)
  have "\<exists>dv1. scan_row far px py r y dv xs = Some (Inr dv1) \<and> same_frame d (fst dv1) \<and> Q dv1"
    using Cons.prems by (intro scan_row_inv [OF ok]) auto
  then obtain dv1 where
    dv1: "scan_row far px py r y dv xs = Some (Inr dv1)" "same_frame d (fst dv1)" "Q dv1"
    by blast
  have "\<exists>dv'. scan_rows far px py r dv1 ys xs = Some (Inr dv') \<and> same_frame d (fst dv') \<and> Q dv'"
    using Cons.prems dv1 by (intro Cons.IH) auto
  then show ?case
    using dv1 by simp
qed

lemma set_py_range: "x \<in> set (py_range a b) \<longleftrightarrow> a \<le> x \<and> x < b"
  by (auto simp add: py_range_def)


lemma norm_index_nonneg: "norm_index n i = Inr k \<Longrightarrow> 0 \<le> i \<Longrightarrow> k = nat i"
  by (auto simp add: norm_index_def Let_def split: if_splits)

lemma norm_index_error: "norm_index n i = Inl e \<Longrightarrow> e = IndexError"
  by (auto simp add: norm_index_def Let_def split: if_splits)

lemma norm_index_ok_iff: "(\<exists>k. norm_index n i = Inr k) \<longleftrightarrow> - int n \<le> i \<and> i < int n"
  by (auto simp add: norm_index_def Let_def)

lemma kinds_lengths:
  assumes "kinds g' = kinds g"
  shows "length g' = length g" and "j < length g \<Longrightarrow> length (g' ! j) = length (g ! j)"
proof -
  show l: "length g' = length g"
    using assms by (metis kinds_def length_map)
  assume j: "j < length g"
  have "length (kinds g' ! j) = length (kinds g ! j)" using assms by simp
  then show "length (g' ! j) = length (g ! j)"
    using j l by (simp add: kinds_def)
qed

lemma modify_tile_other:
  assumes m: "modify_tile g x y f = Inr g'"
    and nn: "0 \<le> x" "0 \<le> y" "0 \<le> tx" "0 \<le> ty" and ne: "x \<noteq> tx \<or> y \<noteq> ty"
    and len: "nat ty < length g"
  shows "g' ! nat ty ! nat tx = g ! nat ty ! nat tx"
proof -
  from m obtain j where j: "norm_index (length g) y = Inr j"
    by (auto simp add: modify_tile_def split: sum.splits)
  with m obtain i where i: "norm_index (length (g ! j)) x = Inr i"
    by (auto simp add: modify_tile_def split: sum.splits)
  from m j i have g': "g' = g[j := (g ! j)[i := f (g ! j ! i)]]"
    by (simp add: modify_tile_def)
  have jj: "j = nat y" and ii: "i = nat x"
    using norm_index_nonneg [OF j nn(2)] norm_index_nonneg [OF i nn(1)] by simp_all
  show ?thesis
  proof (cases "ty = y")
    case True
    with ne have "nat tx \<noteq> nat x" using nn by auto
    then show ?thesis using True len by (simp add: g' jj ii)
  next
    case False
    then have "nat ty \<noteq> nat y" using nn by auto
    then show ?thesis by (simp add: g' jj)
  qed
qed

lemma mark_seen_other:
  assumes m: "mark_seen g x y = Inr g'"
    and nn: "0 \<le> x" "0 \<le> y" "0 \<le> tx" "0 \<le> ty" and ne: "x \<noteq> tx \<or> y \<noteq> ty"
    and len: "nat ty < length g"
  shows "g' ! nat ty ! nat tx = g ! nat ty ! nat tx"
proof -
  from m obtain g1 where
    a: "modify_tile g x y (\<lambda>t. t\<lparr>visible := True\<rparr>) = Inr g1"
    and b: "modify_tile g1 x y (\<lambda>t. t\<lparr>explored := True\<rparr>) = Inr g'"
    by (auto simp add: mark_seen_def split: sum.splits)
  have "length g1 = length g"
    using kinds_lengths(1) [OF modify_tile_kinds [OF a]] by simp
  then show ?thesis
    using modify_tile_other [OF a nn ne len] modify_tile_other [OF b nn ne] len by simp
qed

text \<open>The reset loops clear every visible flag and change nothing else.\<close>

lemma clear_row_props:
  assumes ok: "grid_ok d" and rng: "\<forall>x \<in> set xs. in_bounds d x y"
    and kg: "kinds g = kinds (grid d)"
  shows "\<exists>g'. clear_row g y xs = Inr g' \<and> kinds g' = kinds (grid d) \<and> explored_kept g g' \<and>
           (\<forall>tx ty. in_bounds d tx ty \<longrightarrow>
              (ty = y \<and> tx \<in> set xs) \<or> \<not> visible (g ! nat ty ! nat tx) \<longrightarrow>
              \<not> visible (g' ! nat ty ! nat tx))"
  using rng kg
proof (induction xs arbitrary: g)
  case Nil
  then show ?case by (simp add: explored_kept_refl)
next
  case (Cons x xs)
  let ?d1 = "d\<lparr>grid := g\<rparr>"
  have sf: "same_frame d ?d1" using Cons.prems by (simp add: same_frame_def)
  have ok1: "grid_ok ?d1" by (rule same_frame_grid_ok [OF sf ok])
  have ib: "in_bounds ?d1 x y" using Cons.prems by (simp add: in_bounds_def)
  let ?g1 = "g[nat y := (g ! nat y)[nat x := (g ! nat y ! nat x)\<lparr>visible := False\<rparr>]]"
  have m: "modify_tile g x y (\<lambda>t. t\<lparr>visible := False\<rparr>) = Inr ?g1"
    using modify_tile_in_bounds [OF ok1 ib] by simp
  have k1: "kinds ?g1 = kinds (grid d)"
    using modify_tile_kinds [OF m] Cons.prems by simp
  have e1: "explored_kept g ?g1"
    using modify_tile_explored [OF m] by simp
  have "\<forall>x \<in> set xs. in_bounds d x y" using Cons.prems(1) by simp
  from Cons.IH [OF this k1]
  obtain g' where all': "clear_row ?g1 y xs = Inr g' \<and> kinds g' = kinds (grid d) \<and>
      explored_kept ?g1 g' \<and>
      (\<forall>tx ty. in_bounds d tx ty \<longrightarrow>
              (ty = y \<and> tx \<in> set xs) \<or> \<not> visible (?g1 ! nat ty ! nat tx) \<longrightarrow>
              \<not> visible (g' ! nat ty ! nat tx))"
    by blast
  then have g': "clear_row ?g1 y xs = Inr g'" "kinds g' = kinds (grid d)"
    "explored_kept ?g1 g'"
    and vis: "\<And>tx ty. in_bounds d tx ty \<Longrightarrow>
              (ty = y \<and> tx \<in> set xs) \<or> \<not> visible (?g1 ! nat ty ! nat tx) \<Longrightarrow>
              \<not> visible (g' ! nat ty ! nat tx)"
    by blast+
  have "\<not> visible (g' ! nat ty ! nat tx)"
    if t: "in_bounds d tx ty" and h: "(ty = y \<and> tx \<in> set (x # xs)) \<or> \<not> visible (g ! nat ty ! nat tx)"
    for tx ty
  proof -
    have "in_bounds ?d1 tx ty" using t by (simp add: in_bounds_def)
    from row_length [OF ok1 this]
    have len: "nat ty < length g" "nat tx < length (g ! nat ty)" by simp_all
    have nn: "0 \<le> tx" "0 \<le> ty" "0 \<le> x" "0 \<le> y"
      using t Cons.prems(1) by (simp_all add: in_bounds_def)
    have "(ty = y \<and> tx \<in> set xs) \<or> \<not> visible (?g1 ! nat ty ! nat tx)"
    proof (cases "ty = y \<and> tx = x")
      case True
      then show ?thesis using len by simp
    next
      case False
      then have "nat ty \<noteq> nat y \<or> nat tx \<noteq> nat x" using nn by auto
      then have "?g1 ! nat ty ! nat tx = g ! nat ty ! nat tx"
        using len by (cases "nat ty = nat y") (auto simp add: nth_list_update)
      then show ?thesis using h False by auto
    qed
    then show ?thesis by (rule vis [OF t])
  qed
  then show ?case
    using g' e1 m by (auto intro: explored_kept_trans)
qed

lemma clear_rows_props:
  assumes ok: "grid_ok d" and rng: "\<forall>y \<in> set ys. \<forall>x \<in> set xs. in_bounds d x y"
    and kg: "kinds g = kinds (grid d)"
  shows "\<exists>g'. clear_rows g ys xs = Inr g' \<and> kinds g' = kinds (grid d) \<and> explored_kept g g' \<and>
           (\<forall>tx ty. in_bounds d tx ty \<longrightarrow>
              (ty \<in> set ys \<and> tx \<in> set xs) \<or> \<not> visible (g ! nat ty ! nat tx) \<longrightarrow>
              \<not> visible (g' ! nat ty ! nat tx))"
  using rng kg
proof (induction ys arbitrary: g)
  case Nil
  then show ?case by (simp add: explored_kept_refl)
next
  case (Cons y ys)
  have "\<forall>x \<in> set xs. in_bounds d x y" using Cons.prems(1) by simp
  from clear_row_props [OF ok this Cons.prems(2)]
  obtain g1 where all1: "clear_row g y xs = Inr g1 \<and> kinds g1 = kinds (grid d) \<and>
      explored_kept g g1 \<and>
      (\<forall>tx ty. in_bounds d tx ty \<longrightarrow>
              (ty = y \<and> tx \<in> set xs) \<or> \<not> visible (g ! nat ty ! nat tx) \<longrightarrow>
              \<not> visible (g1 ! nat ty ! nat tx))"
    by blast
  then have g1: "clear_row g y xs = Inr g1" "kinds g1 = kinds (grid d)" "explored_kept g g1"
    and v1: "\<And>tx ty. in_bounds d tx ty \<Longrightarrow>
              (ty = y \<and> tx \<in> set xs) \<or> \<not> visible (g ! nat ty ! nat tx) \<Longrightarrow>
              \<not> visible (g1 ! nat ty ! nat tx)"
    by blast+
  have "\<forall>y \<in> set ys. \<forall>x \<in> set xs. in_bounds d x y" using Cons.prems(1) by simp
  from Cons.IH [OF this g1(2)]
  obtain g' where all2: "clear_rows g1 ys xs = Inr g' \<and> kinds g' = kinds (grid d) \<and>
      explored_kept g1 g' \<and>
      (\<forall>tx ty. in_bounds d tx ty \<longrightarrow>
              (ty \<in> set ys \<and> tx \<in> set xs) \<or> \<not> visible (g1 ! nat ty ! nat tx) \<longrightarrow>
              \<not> visible (g' ! nat ty ! nat tx))"
    by blast
  then have g': "clear_rows g1 ys xs = Inr g'" "kinds g' = kinds (grid d)"
    "explored_kept g1 g'"
    and v2: "\<And>tx ty. in_bounds d tx ty \<Longrightarrow>
              (ty \<in> set ys \<and> tx \<in> set xs) \<or> \<not> visible (g1 ! nat ty ! nat tx) \<Longrightarrow>
              \<not> visible (g' ! nat ty ! nat tx)"
    by blast+
  have "\<not> visible (g' ! nat ty ! nat tx)"
    if t: "in_bounds d tx ty"
      and h: "(ty \<in> set (y # ys) \<and> tx \<in> set xs) \<or> \<not> visible (g ! nat ty ! nat tx)"
    for tx ty
    using v1 [OF t] v2 [OF t] h by auto
  then show ?case
    using g1 g' by (auto intro: explored_kept_trans)
qed

lemma compute_fov_reset:
  assumes ok: "grid_ok d"
  shows "\<exists>g1. clear_rows (grid d) (py_range 0 (height d)) (py_range 0 (width d)) = Inr g1 \<and>
           kinds g1 = kinds (grid d) \<and> explored_kept (grid d) g1 \<and>
           (\<forall>tx ty. in_bounds d tx ty \<longrightarrow> \<not> visible (g1 ! nat ty ! nat tx))"
proof -
  have "\<forall>y \<in> set (py_range 0 (height d)). \<forall>x \<in> set (py_range 0 (width d)). in_bounds d x y"
    by (simp add: set_py_range in_bounds_def)
  from clear_rows_props [OF ok this, of "grid d"]
  show ?thesis by (auto simp add: set_py_range in_bounds_def)
qed


lemma scan_ranges_in_bounds:
  "\<forall>y \<in> set (py_range (max 0 (py - r)) (min (height d) (py + r + 1))).
     \<forall>x \<in> set (py_range (max 0 (px - r)) (min (width d) (px + r + 1))). in_bounds d x y"
  by (simp add: set_py_range in_bounds_def)

lemma modify_tile_error: "modify_tile g x y f = Inl e \<Longrightarrow> e = IndexError"
  by (auto simp add: modify_tile_def split: sum.splits dest: norm_index_error)

lemma mark_seen_error: "mark_seen g x y = Inl e \<Longrightarrow> e = IndexError"
  by (auto simp add: mark_seen_def split: sum.splits dest: modify_tile_error)

text \<open>On a well-formed grid an update succeeds exactly for indices Python accepts.\<close>

lemma modify_tile_wrap:
  assumes "grid_ok d"
  shows "(\<exists>g'. modify_tile (grid d) x y f = Inr g') \<longleftrightarrow>
           - width d \<le> x \<and> x < width d \<and> - height d \<le> y \<and> y < height d"
proof -
  have len: "int (length (grid d)) = max 0 (height d)"
    using assms by (simp add: grid_ok_def)
  have row: "int (length (grid d ! j)) = max 0 (width d)" if "j < length (grid d)" for j
    using assms that by (simp add: grid_ok_def)
  show ?thesis
  proof (cases "\<exists>j. norm_index (length (grid d)) y = Inr j")
    case True
    then obtain j where j: "norm_index (length (grid d)) y = Inr j" by blast
    have yr: "- height d \<le> y \<and> y < height d"
      using norm_index_ok_iff [of "length (grid d)" y] True len by auto
    have "(\<exists>i. norm_index (length (grid d ! j)) x = Inr i) \<longleftrightarrow> - width d \<le> x \<and> x < width d"
      using norm_index_ok_iff [of "length (grid d ! j)" x] row [OF norm_index_less [OF j]]
      by auto
    then show ?thesis
      using j yr by (auto simp add: modify_tile_def split: sum.splits)
  next
    case False
    then have "\<not> (- height d \<le> y \<and> y < height d)"
      using norm_index_ok_iff [of "length (grid d)" y] len by auto
    moreover have "\<not> (\<exists>g'. modify_tile (grid d) x y f = Inr g')"
      using False by (auto simp add: modify_tile_def split: sum.splits)
    ultimately show ?thesis by blast
  qed
qed

lemma mark_seen_wrap:
  assumes "grid_ok d"
  shows "(\<exists>g'. mark_seen (grid d) x y = Inr g') \<longleftrightarrow>
           - width d \<le> x \<and> x < width d \<and> - height d \<le> y \<and> y < height d"
proof
  assume "\<exists>g'. mark_seen (grid d) x y = Inr g'"
  then have "\<exists>g1. modify_tile (grid d) x y (\<lambda>t. t\<lparr>visible := True\<rparr>) = Inr g1"
    by (auto simp add: mark_seen_def split: sum.splits)
  then show "- width d \<le> x \<and> x < width d \<and> - height d \<le> y \<and> y < height d"
    by (simp add: modify_tile_wrap [OF assms])
next
  assume r: "- width d \<le> x \<and> x < width d \<and> - height d \<le> y \<and> y < height d"
  then obtain g1 where g1: "modify_tile (grid d) x y (\<lambda>t. t\<lparr>visible := True\<rparr>) = Inr g1"
    using modify_tile_wrap [OF assms, of x y] by blast
  have sf: "same_frame d (d\<lparr>grid := g1\<rparr>)"
    using modify_tile_kinds [OF g1] by (simp add: same_frame_def)
  have "\<exists>g'. modify_tile (grid (d\<lparr>grid := g1\<rparr>)) x y (\<lambda>t. t\<lparr>explored := True\<rparr>) = Inr g'"
    using r modify_tile_wrap [OF same_frame_grid_ok [OF sf assms], of x y] by simp
  then show "\<exists>g'. mark_seen (grid d) x y = Inr g'"
    using g1 by (simp add: mark_seen_def)
qed

text \<open>What \<open>compute_fov\<close> does after its reset loops.\<close>

lemma compute_fov_expand:
  assumes ok: "grid_ok d"
  obtains g1 where "kinds g1 = kinds (grid d)" and "explored_kept (grid d) g1"
    and "\<And>tx ty. in_bounds d tx ty \<Longrightarrow> \<not> visible (g1 ! nat ty ! nat tx)"
    and "\<And>far px py r. compute_fov far d px py r =
          (case mark_seen g1 px py of
             Inl e \<Rightarrow> Some (Inl e)
           | Inr g2 \<Rightarrow>
               scan_rows far px py r (d\<lparr>grid := g2\<rparr>, {(px, py)})
                 (py_range (max 0 (py - r)) (min (height d) (py + r + 1)))
                 (py_range (max 0 (px - r)) (min (width d) (px + r + 1))))"
proof -
  from compute_fov_reset [OF ok] obtain g1 where
    "clear_rows (grid d) (py_range 0 (height d)) (py_range 0 (width d)) = Inr g1 \<and>
       kinds g1 = kinds (grid d) \<and> explored_kept (grid d) g1 \<and>
       (\<forall>tx ty. in_bounds d tx ty \<longrightarrow> \<not> visible (g1 ! nat ty ! nat tx))"
    by blast
  then show ?thesis
    by (intro that [of g1]) (simp_all add: compute_fov_def)
qed

text \<open>
  With the observer at an index Python accepts, \<open>compute_fov\<close> returns; the observer's
  position is in the visible set and no explored flag is lost.
\<close>

lemma compute_fov_returns:
  assumes ok: "grid_ok d"
    and obs: "- width d \<le> px \<and> px < width d \<and> - height d \<le> py \<and> py < height d"
  shows "\<exists>d' vis. compute_fov far d px py r = Some (Inr (d', vis)) \<and> same_frame d d' \<and>
           explored_kept (grid d) (grid d') \<and> (px, py) \<in> vis"
proof -
  from compute_fov_expand [OF ok] obtain g1 where
    k1: "kinds g1 = kinds (grid d)" and e1: "explored_kept (grid d) g1"
    and cf: "\<And>far px py r. compute_fov far d px py r =
          (case mark_seen g1 px py of
             Inl e \<Rightarrow> Some (Inl e)
           | Inr g2 \<Rightarrow>
               scan_rows far px py r (d\<lparr>grid := g2\<rparr>, {(px, py)})
                 (py_range (max 0 (py - r)) (min (height d) (py + r + 1)))
                 (py_range (max 0 (px - r)) (min (width d) (px + r + 1))))"
    by metis
  have sf1: "same_frame d (d\<lparr>grid := g1\<rparr>)" using k1 by (simp add: same_frame_def)
  obtain g2 where g2: "mark_seen g1 px py = Inr g2"
    using mark_seen_wrap [OF same_frame_grid_ok [OF sf1 ok], of px py] obs by auto
  have sf2: "same_frame d (d\<lparr>grid := g2\<rparr>)"
    using mark_seen_facts(1) [OF g2] k1 by (simp add: same_frame_def)
  have e2: "explored_kept (grid d) g2"
    using e1 mark_seen_facts(2) [OF g2] by (rule explored_kept_trans)
  let ?Q = "\<lambda>dv. explored_kept (grid d) (grid (fst dv)) \<and> (px, py) \<in> snd dv"
  have "\<exists>dv'. scan_rows far px py r (d\<lparr>grid := g2\<rparr>, {(px, py)})
                 (py_range (max 0 (py - r)) (min (height d) (py + r + 1)))
                 (py_range (max 0 (px - r)) (min (width d) (px + r + 1))) = Some (Inr dv') \<and>
               same_frame d (fst dv') \<and> ?Q dv'"
  proof (rule scan_rows_inv [OF ok scan_ranges_in_bounds])
    show "same_frame d (fst (d\<lparr>grid := g2\<rparr>, {(px, py)}))" using sf2 by simp
    show "?Q (d\<lparr>grid := g2\<rparr>, {(px, py)})" using e2 by simp
  next
    fix d1 vis x y g'
    assume "?Q (d1, vis)" and "mark_seen (grid d1) x y = Inr g'"
    then show "?Q (d1\<lparr>grid := g'\<rparr>, insert (x, y) vis)"
      using mark_seen_facts(2) by (auto intro: explored_kept_trans)
  qed
  then show ?thesis
    by (auto simp add: cf g2)
qed

lemma compute_fov_raises:
  assumes ok: "grid_ok d"
    and obs: "\<not> (- width d \<le> px \<and> px < width d \<and> - height d \<le> py \<and> py < height d)"
  shows "compute_fov far d px py r = Some (Inl IndexError)"
proof -
  from compute_fov_expand [OF ok] obtain g1 where
    k1: "kinds g1 = kinds (grid d)"
    and cf: "\<And>far px py r. compute_fov far d px py r =
          (case mark_seen g1 px py of
             Inl e \<Rightarrow> Some (Inl e)
           | Inr g2 \<Rightarrow>
               scan_rows far px py r (d\<lparr>grid := g2\<rparr>, {(px, py)})
                 (py_range (max 0 (py - r)) (min (height d) (py + r + 1)))
                 (py_range (max 0 (px - r)) (min (width d) (px + r + 1))))"
    by metis
  have sf1: "same_frame d (d\<lparr>grid := g1\<rparr>)" using k1 by (simp add: same_frame_def)
  have "\<not> (\<exists>g2. mark_seen g1 px py = Inr g2)"
    using mark_seen_wrap [OF same_frame_grid_ok [OF sf1 ok], of px py] obs by auto
  then obtain e where "mark_seen g1 px py = Inl e"
    by (cases "mark_seen g1 px py") auto
  then show ?thesis
    using mark_seen_error by (auto simp add: cf)
qed


lemma same_frame_trans: "same_frame d d' \<Longrightarrow> same_frame d' d'' \<Longrightarrow> same_frame d d''"
  by (simp add: same_frame_def)

lemma grid_ok_wall_row: "grid_ok wall_row"
  by (simp add: grid_ok_def wall_row_def)

section \<open>Explored flags are never lost\<close>

text \<open>
  C3.  On a well-formed floor, every sequence of \<open>compute_fov\<close> calls with in-bounds
  observer positions runs to its end without an error, and every tile that was explored
  before the sequence is explored after it.
\<close>

theorem explored_monotone:
  assumes "grid_ok d" and "\<forall>c \<in> set calls. in_bounds d (fst c) (fst (snd c))"
  shows "\<exists>d'. run_fov far d calls = Some (Inr d') \<and> same_frame d d' \<and>
           explored_kept (grid d) (grid d')"
  using assms
proof (induction calls arbitrary: d)
  case Nil
  then show ?case by (simp add: same_frame_refl explored_kept_refl)
next
  case (Cons c calls)
  obtain px py r where c: "c = (px, py, r)" by (cases c)
  have "in_bounds d px py" using Cons.prems(2) c by simp
  then have "- width d \<le> px \<and> px < width d \<and> - height d \<le> py \<and> py < height d"
    by (auto simp add: in_bounds_def)
  from compute_fov_returns [OF Cons.prems(1) this, of far r]
  obtain d1 vis where d1: "compute_fov far d px py r = Some (Inr (d1, vis))"
    "same_frame d d1" "explored_kept (grid d) (grid d1)"
    by blast
  have "grid_ok d1" by (rule same_frame_grid_ok [OF d1(2) Cons.prems(1)])
  moreover have "\<forall>c \<in> set calls. in_bounds d1 (fst c) (fst (snd c))"
    using Cons.prems(2) by (simp add: same_frame_in_bounds [OF d1(2)])
  ultimately obtain d' where d': "run_fov far d1 calls = Some (Inr d')"
    "same_frame d1 d'" "explored_kept (grid d1) (grid d')"
    using Cons.IH by blast
  show ?case
    using d1 d' by (auto simp add: c intro: same_frame_trans explored_kept_trans)
qed

theorem explored_monotone_witness:
  "\<exists>d'. run_fov sqrt_gt wall_row [(0, 0, 5), (2, 0, 1)] = Some (Inr d') \<and>
        same_frame wall_row d' \<and> explored_kept (grid wall_row) (grid d')"
  using explored_monotone [OF grid_ok_wall_row, of "[(0, 0, 5), (2, 0, 1)]" sqrt_gt]
  by (simp add: in_bounds_def wall_row_def)

section \<open>An observer standing on a wall\<close>

text \<open>
  C10.  When the in-bounds observer stands on a tile that is not transparent,
  \<open>compute_fov\<close> returns exactly the set holding the observer's own cell, for every
  radius.
\<close>

theorem fov_from_wall:
  assumes ok: "grid_ok d" and ib: "in_bounds d px py"
    and wall: "\<not> is_transparent (grid d ! nat py ! nat px)"
  shows "\<exists>d'. compute_fov far d px py r = Some (Inr (d', {(px, py)}))"
proof -
  from compute_fov_expand [OF ok] obtain g1 where
    k1: "kinds g1 = kinds (grid d)"
    and cf: "\<And>far px py r. compute_fov far d px py r =
          (case mark_seen g1 px py of
             Inl e \<Rightarrow> Some (Inl e)
           | Inr g2 \<Rightarrow>
               scan_rows far px py r (d\<lparr>grid := g2\<rparr>, {(px, py)})
                 (py_range (max 0 (py - r)) (min (height d) (py + r + 1)))
                 (py_range (max 0 (px - r)) (min (width d) (px + r + 1))))"
    by metis
  have sf1: "same_frame d (d\<lparr>grid := g1\<rparr>)" using k1 by (simp add: same_frame_def)
  have "- width d \<le> px \<and> px < width d \<and> - height d \<le> py \<and> py < height d"
    using ib by (auto simp add: in_bounds_def)
  then obtain g2 where g2: "mark_seen g1 px py = Inr g2"
    using mark_seen_wrap [OF same_frame_grid_ok [OF sf1 ok], of px py] by auto
  have sf2: "same_frame d (d\<lparr>grid := g2\<rparr>)"
    using mark_seen_facts(1) [OF g2] k1 by (simp add: same_frame_def)
  have w: "kind (grid d ! nat py ! nat px) = WALL"
    using wall by (simp add: is_transparent_def)
  let ?Q = "\<lambda>dv :: dungeon \<times> pos set. snd dv = {(px, py)}"
  have "\<exists>dv'. scan_rows far px py r (d\<lparr>grid := g2\<rparr>, {(px, py)})
                 (py_range (max 0 (py - r)) (min (height d) (py + r + 1)))
                 (py_range (max 0 (px - r)) (min (width d) (px + r + 1))) = Some (Inr dv') \<and>
               same_frame d (fst dv') \<and> ?Q dv'"
  proof (rule scan_rows_inv [OF ok scan_ranges_in_bounds])
    show "same_frame d (fst (d\<lparr>grid := g2\<rparr>, {(px, py)}))" using sf2 by simp
    show "?Q (d\<lparr>grid := g2\<rparr>, {(px, py)})" by simp
  next
    fix d1 :: dungeon and vis :: "pos set" and x y g'
    assume q: "?Q (d1, vis)" and los: "has_line_of_sight d px py x y = Some (Inr True)"
    have "x = px \<and> y = py"
    proof (rule ccontr)
      assume "\<not> (x = px \<and> y = py)"
      then have "px \<noteq> x \<or> py \<noteq> y" by auto
      from has_line_of_sight_from_wall [OF ok ib w this] los show False by simp
    qed
    with q show "?Q (d1\<lparr>grid := g'\<rparr>, insert (x, y) vis)" by simp
  qed
  then show ?thesis
    by (cases rule: exE) (auto simp add: cf g2)
qed

theorem fov_from_wall_witness:
  "\<exists>d'. compute_fov sqrt_gt wall_row 1 0 5 = Some (Inr (d', {(1, 0)}))"
  using fov_from_wall [OF grid_ok_wall_row, of 1 0 sqrt_gt 5]
  by (simp add: in_bounds_def wall_row_def is_transparent_def Tile_def)


section \<open>Observer positions outside the grid\<close>

lemma clamp_player_in_bounds:
  assumes "0 < width d" and "0 < height d"
  shows "in_bounds d (fst (clamp_player d p)) (snd (clamp_player d p))"
  using assms by (auto simp add: clamp_player_def in_bounds_def Let_def)

lemma clamp_player_id: "in_bounds d (fst p) (snd p) \<Longrightarrow> clamp_player d p = p"
  by (cases p) (auto simp add: clamp_player_def in_bounds_def Let_def)

text \<open>
  C6 (as amended).  \<open>compute_fov\<close> does no clamping of its own.  On a well-formed floor it
  returns, with the observer's own cell in the visible set, for every in-bounds observer,
  and it raises \<^verbatim>\<open>IndexError\<close> for every observer with \<open>x \<ge> width\<close> or \<open>y \<ge> height\<close>.
  The clamping is done by the caller \<open>render\<close>: on a floor with at least one tile it
  moves the player to a position inside the grid (leaving a position that is inside
  where it is) before the call, so the call returns and the visible set \<open>render\<close> goes on
  with is the one \<open>compute_fov\<close> computed for the clamped cell and contains that cell.
\<close>

theorem fov_observer_range:
  assumes ok: "grid_ok d"
  shows "(in_bounds d px py \<longrightarrow>
            (\<exists>d' vis. compute_fov far d px py r = Some (Inr (d', vis)) \<and> (px, py) \<in> vis)) \<and>
         (width d \<le> px \<or> height d \<le> py \<longrightarrow>
            compute_fov far d px py r = Some (Inl IndexError)) \<and>
         (in_bounds d (fst p) (snd p) \<longrightarrow> clamp_player d p = p) \<and>
         (0 < width d \<and> 0 < height d \<longrightarrow>
            in_bounds d (fst (clamp_player d p)) (snd (clamp_player d p)) \<and>
            (\<exists>d' vis. compute_fov far d (fst (clamp_player d p)) (snd (clamp_player d p)) r
                        = Some (Inr (d', vis)) \<and>
                      render_visible_tiles far d p r = Some vis \<and> clamp_player d p \<in> vis))"
proof (intro conjI impI)
  assume "in_bounds d px py"
  then have "- width d \<le> px \<and> px < width d \<and> - height d \<le> py \<and> py < height d"
    by (auto simp add: in_bounds_def)
  from compute_fov_returns [OF ok this, of far r]
  show "\<exists>d' vis. compute_fov far d px py r = Some (Inr (d', vis)) \<and> (px, py) \<in> vis"
    by blast
next
  assume "width d \<le> px \<or> height d \<le> py"
  then have "\<not> (- width d \<le> px \<and> px < width d \<and> - height d \<le> py \<and> py < height d)"
    by auto
  then show "compute_fov far d px py r = Some (Inl IndexError)"
    by (rule compute_fov_raises [OF ok])
next
  assume "in_bounds d (fst p) (snd p)"
  then show "clamp_player d p = p" by (rule clamp_player_id)
next
  assume pos: "0 < width d \<and> 0 < height d"
  then show "in_bounds d (fst (clamp_player d p)) (snd (clamp_player d p))"
    by (simp add: clamp_player_in_bounds)
next
  assume pos: "0 < width d \<and> 0 < height d"
  obtain qx qy where q: "clamp_player d p = (qx, qy)" by (cases "clamp_player d p")
  have "in_bounds d qx qy"
    using clamp_player_in_bounds [of d p] pos q by simp
  then have "- width d \<le> qx \<and> qx < width d \<and> - height d \<le> qy \<and> qy < height d"
    by (auto simp add: in_bounds_def)
  from compute_fov_returns [OF ok this, of far r]
  obtain d' vis where "compute_fov far d qx qy r = Some (Inr (d', vis))" "(qx, qy) \<in> vis"
    by blast
  then show "\<exists>d' vis. compute_fov far d (fst (clamp_player d p)) (snd (clamp_player d p)) r
                        = Some (Inr (d', vis)) \<and>
                      render_visible_tiles far d p r = Some vis \<and> clamp_player d p \<in> vis"
    by (simp add: render_visible_tiles_def q)
qed

theorem fov_observer_range_witness:
  "(\<exists>d' vis. compute_fov sqrt_gt wall_row 0 0 5 = Some (Inr (d', vis)) \<and> (0, 0) \<in> vis) \<and>
   compute_fov sqrt_gt wall_row 3 0 5 = Some (Inl IndexError) \<and>
   clamp_player wall_row (2, 0) = (2, 0) \<and>
   clamp_player wall_row (3, - 4) = (2, 0) \<and>
   in_bounds wall_row 2 0 \<and>
   (\<exists>d' vis. compute_fov sqrt_gt wall_row 2 0 5 = Some (Inr (d', vis)) \<and>
      render_visible_tiles sqrt_gt wall_row (3, - 4) 5 = Some vis \<and> (2, 0) \<in> vis)"
proof -
  have a: "in_bounds wall_row 0 0" "in_bounds wall_row (fst (2, 0)) (snd (2 :: int, 0 :: int))"
    by (simp_all add: in_bounds_def wall_row_def)
  have b: "width wall_row \<le> 3 \<or> height wall_row \<le> 0"
    and c: "0 < width wall_row \<and> 0 < height wall_row"
    by (simp_all add: wall_row_def)
  have q: "clamp_player wall_row (3, - 4) = (2, 0)"
    by (simp add: clamp_player_def wall_row_def)
  show ?thesis
    using fov_observer_range [OF grid_ok_wall_row, of 0 0 sqrt_gt 5 "(2, 0)"]
      fov_observer_range [OF grid_ok_wall_row, of 3 0 sqrt_gt 5 "(3, - 4)"] a b c
    by (simp add: q)
qed

text \<open>
  C6 as stated fails: for the observer \<open>(3, 0)\<close>, outside the 3 by 1 floor \<open>wall_row\<close>,
  \<open>compute_fov\<close> raises \<^verbatim>\<open>IndexError\<close>.
\<close>

theorem fov_observer_range_counterexample:
  "\<not> in_bounds wall_row 3 0 \<and> compute_fov sqrt_gt wall_row 3 0 5 = Some (Inl IndexError)"
proof
  show "\<not> in_bounds wall_row 3 0" by (simp add: in_bounds_def wall_row_def)
  have "\<not> (- width wall_row \<le> 3 \<and> 3 < width wall_row \<and>
           - height wall_row \<le> 0 \<and> 0 < height wall_row)"
    by (simp add: wall_row_def)
  then show "compute_fov sqrt_gt wall_row 3 0 5 = Some (Inl IndexError)"
    by (rule compute_fov_raises [OF grid_ok_wall_row])
qed

section \<open>Occlusion by a wall on the line of sight\<close>

lemma los_between:
  assumes ok: "grid_ok d" and ib: "in_bounds d wx wy"
    and wall: "kind (grid d ! nat wy ! nat wx) = WALL"
    and btw: "strictly_between (px, py) (wx, wy) (tx, ty)"
  shows "has_line_of_sight d px py tx ty = Some (Inr False)"
proof -
  define sx :: int where "sx = (if px < tx then 1 else - 1)"
  define sy :: int where "sy = (if py < ty then 1 else - 1)"
  define ap where "ap = \<bar>tx - wx\<bar>"
  define bp where "bp = \<bar>ty - wy\<bar>"
  from btw have ne: "wx \<noteq> tx \<or> wy \<noteq> ty"
    and coll: "(wx - px) * (ty - py) = (wy - py) * (tx - px)"
    and bx: "min px tx \<le> wx" "wx \<le> max px tx"
    and byy: "min py ty \<le> wy" "wy \<le> max py ty"
    by (auto simp add: strictly_between_def)
  have wx: "tx - sx * ap = wx" using bx by (auto simp add: sx_def ap_def)
  have wy: "ty - sy * bp = wy" using byy by (auto simp add: sy_def bp_def)
  have apx: "ap = sx * (tx - wx)" and dxx: "\<bar>tx - px\<bar> = sx * (tx - px)"
    using bx by (auto simp add: sx_def ap_def)
  have bpy: "bp = sy * (ty - wy)" and dyy: "\<bar>ty - py\<bar> = sy * (ty - py)"
    using byy by (auto simp add: sy_def bp_def)
  have "(tx - wx) * (ty - py) = (ty - wy) * (tx - px)"
    using coll by (simp add: algebra_simps)
  then have "sx * sy * ((tx - wx) * (ty - py)) = sx * sy * ((ty - wy) * (tx - px))"
    by simp
  then have prp: "ap * \<bar>ty - py\<bar> = bp * \<bar>tx - px\<bar>"
    unfolding apx bpy dxx dyy by (simp add: algebra_simps)
  have "los_walk d \<bar>tx - px\<bar> \<bar>ty - py\<bar> sx sy tx ty
          (bres_err \<bar>tx - px\<bar> \<bar>ty - py\<bar> \<bar>tx - px\<bar> \<bar>ty - py\<bar>)
          (tx - sx * \<bar>tx - px\<bar>) (ty - sy * \<bar>ty - py\<bar>) = Some (Inr False)"
  proof (rule los_walk_blocked [OF ok _ _ _ _ _ prp])
    show "sx = 1 \<or> sx = - 1" "sy = 1 \<or> sy = - 1" by (auto simp add: sx_def sy_def)
    show "0 \<le> ap" "0 \<le> bp" by (simp_all add: ap_def bp_def)
    show "ap \<noteq> 0 \<or> bp \<noteq> 0" using ne by (auto simp add: ap_def bp_def)
    show "in_bounds d (tx - sx * ap) (ty - sy * bp)" using ib by (simp add: wx wy)
    show "kind (grid d ! nat (ty - sy * bp) ! nat (tx - sx * ap)) = WALL"
      using wall by (simp add: wx wy)
    show "ap \<le> \<bar>tx - px\<bar>" using bx by (auto simp add: ap_def)
    show "bp \<le> \<bar>ty - py\<bar>" using byy by (auto simp add: bp_def)
  qed simp_all
  then show ?thesis
    unfolding has_line_of_sight_ab sx_def sy_def .
qed

text \<open>
  C4.  Let the observer be in bounds and let an in-bounds wall tile lie on the straight
  segment from the observer to a target cell, strictly between the two.  Then, for every
  radius, \<open>compute_fov\<close> returns a visible set without the target, and the target's
  \<open>visible\<close> flag is off afterwards.
\<close>

theorem fov_occlusion:
  assumes ok: "grid_ok d" and ib: "in_bounds d px py" and wib: "in_bounds d wx wy"
    and wall: "kind (grid d ! nat wy ! nat wx) = WALL"
    and btw: "strictly_between (px, py) (wx, wy) (tx, ty)"
  shows "\<exists>d' vis. compute_fov far d px py r = Some (Inr (d', vis)) \<and> (tx, ty) \<notin> vis \<and>
           (in_bounds d tx ty \<longrightarrow> \<not> visible (grid d' ! nat ty ! nat tx))"
proof -
  have blocked: "has_line_of_sight d px py tx ty = Some (Inr False)"
    by (rule los_between [OF ok wib wall btw])
  have ne: "px \<noteq> tx \<or> py \<noteq> ty"
    using btw by (auto simp add: strictly_between_def)
  from compute_fov_expand [OF ok] obtain g1 where
    k1: "kinds g1 = kinds (grid d)"
    and h1: "\<And>tx ty. in_bounds d tx ty \<Longrightarrow> \<not> visible (g1 ! nat ty ! nat tx)"
    and cf: "\<And>far px py r. compute_fov far d px py r =
          (case mark_seen g1 px py of
             Inl e \<Rightarrow> Some (Inl e)
           | Inr g2 \<Rightarrow>
               scan_rows far px py r (d\<lparr>grid := g2\<rparr>, {(px, py)})
                 (py_range (max 0 (py - r)) (min (height d) (py + r + 1)))
                 (py_range (max 0 (px - r)) (min (width d) (px + r + 1))))"
    by metis
  have sf1: "same_frame d (d\<lparr>grid := g1\<rparr>)" using k1 by (simp add: same_frame_def)
  have "- width d \<le> px \<and> px < width d \<and> - height d \<le> py \<and> py < height d"
    using ib by (auto simp add: in_bounds_def)
  then obtain g2 where g2: "mark_seen g1 px py = Inr g2"
    using mark_seen_wrap [OF same_frame_grid_ok [OF sf1 ok], of px py] by auto
  have sf2: "same_frame d (d\<lparr>grid := g2\<rparr>)"
    using mark_seen_facts(1) [OF g2] k1 by (simp add: same_frame_def)
  have len: "nat ty < length (grid d1)" if "same_frame d d1" "in_bounds d tx ty" for d1
    using row_length(1) [OF same_frame_grid_ok [OF that(1) ok], of tx ty] that
    by (simp add: same_frame_in_bounds)
  let ?Q = "\<lambda>dv :: dungeon \<times> pos set. (tx, ty) \<notin> snd dv \<and>
              (in_bounds d tx ty \<longrightarrow> \<not> visible (grid (fst dv) ! nat ty ! nat tx))"
  have q0: "?Q (d\<lparr>grid := g2\<rparr>, {(px, py)})"
  proof -
    have "g2 ! nat ty ! nat tx = g1 ! nat ty ! nat tx" if t: "in_bounds d tx ty"
      using mark_seen_other [OF g2 _ _ _ _ ne] len [OF sf1 t] ib t
      by (simp add: in_bounds_def)
    then show ?thesis using h1 ne by auto
  qed
  have "\<exists>dv'. scan_rows far px py r (d\<lparr>grid := g2\<rparr>, {(px, py)})
                 (py_range (max 0 (py - r)) (min (height d) (py + r + 1)))
                 (py_range (max 0 (px - r)) (min (width d) (px + r + 1))) = Some (Inr dv') \<and>
               same_frame d (fst dv') \<and> ?Q dv'"
  proof (rule scan_rows_inv [OF ok scan_ranges_in_bounds])
    show "same_frame d (fst (d\<lparr>grid := g2\<rparr>, {(px, py)}))" using sf2 by simp
    show "?Q (d\<lparr>grid := g2\<rparr>, {(px, py)})" by (rule q0)
  next
    fix d1 :: dungeon and vis :: "pos set" and x y g'
    assume sf: "same_frame d d1" and q: "?Q (d1, vis)"
      and x: "x \<in> set (py_range (max 0 (px - r)) (min (width d) (px + r + 1)))"
      and y: "y \<in> set (py_range (max 0 (py - r)) (min (height d) (py + r + 1)))"
      and los: "has_line_of_sight d px py x y = Some (Inr True)"
      and m: "mark_seen (grid d1) x y = Inr g'"
    have xy: "x \<noteq> tx \<or> y \<noteq> ty" using los blocked by auto
    have nn: "0 \<le> x" "0 \<le> y" using x y by (simp_all add: set_py_range)
    have "g' ! nat ty ! nat tx = grid d1 ! nat ty ! nat tx" if t: "in_bounds d tx ty"
      using mark_seen_other [OF m nn _ _ xy] len [OF sf t] t by (simp add: in_bounds_def)
    then show "?Q (d1\<lparr>grid := g'\<rparr>, insert (x, y) vis)"
      using q xy by auto
  qed
  then show ?thesis
    by (cases rule: exE) (auto simp add: cf g2)
qed

theorem fov_occlusion_witness:
  "\<exists>d' vis. compute_fov sqrt_gt wall_row 0 0 5 = Some (Inr (d', vis)) \<and> (2, 0) \<notin> vis \<and>
     \<not> visible (grid d' ! nat 0 ! nat 2)"
proof -
  have "strictly_between (0, 0) (1, 0) (2, 0)" by (simp add: strictly_between_def)
  moreover have "kind (grid wall_row ! nat 0 ! nat 1) = WALL" by (simp add: wall_row_def Tile_def)
  moreover have "in_bounds wall_row 0 0" "in_bounds wall_row 1 0" "in_bounds wall_row 2 0"
    by (simp_all add: in_bounds_def wall_row_def)
  ultimately show ?thesis
    using fov_occlusion [OF grid_ok_wall_row, of 0 0 1 0 2 0 sqrt_gt 5] by simp
qed

section \<open>\<open>astar\<close> never depends on the start cell\<close>


lemma differ_only_at_sym: "differ_only_at g1 g2 p \<Longrightarrow> differ_only_at g2 g1 p"
  by (auto simp add: differ_only_at_def)

lemma differ_in_grid:
  assumes "differ_only_at g1 g2 p"
  shows "in_grid g2 n = in_grid g1 n"
proof -
  have l: "length g1 = length g2" using assms by (simp add: differ_only_at_def)
  have hdl: "length (hd g1) = length (hd g2)" if "g1 \<noteq> []"
  proof -
    from that l have "g2 \<noteq> []" by auto
    then have "hd g1 = g1 ! 0" "hd g2 = g2 ! 0" using that by (simp_all add: hd_conv_nth)
    moreover have "0 < length g1" using that by simp
    ultimately show ?thesis using assms by (auto simp add: differ_only_at_def)
  qed
  show ?thesis
  proof (cases "g1 = []")
    case True
    with l show ?thesis by (simp add: in_grid_def grid_width_def grid_height_def)
  next
    case False
    with l have "g2 \<noteq> []" by auto
    with False hdl [OF False] l show ?thesis
      by (simp add: in_grid_def grid_width_def grid_height_def)
  qed
qed

lemma cell_nonneg:
  assumes "0 \<le> fst n" "0 \<le> snd n"
  shows "cell g n =
           (if nat (snd n) < length g \<and> nat (fst n) < length (g ! nat (snd n))
            then Inr (g ! nat (snd n) ! nat (fst n)) else Inl IndexError)"
  using assms by (auto simp add: cell_def py_get_def norm_index_def Let_def nat_less_iff)

lemma differ_cell:
  assumes d: "differ_only_at g1 g2 p" and nn: "0 \<le> fst n" "0 \<le> snd n"
  shows "cell g2 n = cell g1 n \<or> (n = p \<and> (\<exists>b1 b2. cell g1 n = Inr b1 \<and> cell g2 n = Inr b2))"
proof (cases "nat (snd n) < length g1 \<and> nat (fst n) < length (g1 ! nat (snd n))")
  case True
  then have r1: "cell g1 n = Inr (g1 ! nat (snd n) ! nat (fst n))"
    using nn by (simp add: cell_nonneg)
  have "length g1 = length g2" and "length (g1 ! nat (snd n)) = length (g2 ! nat (snd n))"
    using True d by (simp_all add: differ_only_at_def)
  then have "nat (snd n) < length g2 \<and> nat (fst n) < length (g2 ! nat (snd n))"
    using True by simp
  then have r2: "cell g2 n = Inr (g2 ! nat (snd n) ! nat (fst n))"
    using nn by (simp add: cell_nonneg)
  show ?thesis
  proof (cases "n = p")
    case True
    then show ?thesis using r1 r2 by simp
  next
    case False
    then have "(int (nat (fst n)), int (nat (snd n))) \<noteq> p"
      using nn by (cases n) auto
    moreover from d True
    have "\<And>i. i < length (g1 ! nat (snd n)) \<Longrightarrow> (int i, int (nat (snd n))) \<noteq> p \<Longrightarrow>
            g1 ! nat (snd n) ! i = g2 ! nat (snd n) ! i"
      by (simp add: differ_only_at_def)
    ultimately have "g1 ! nat (snd n) ! nat (fst n) = g2 ! nat (snd n) ! nat (fst n)"
      using True by blast
    then show ?thesis using r1 r2 by simp
  qed
next
  case False
  then have "cell g1 n = Inl IndexError"
    using nn by (simp add: cell_nonneg)
  moreover have "length g1 = length g2"
    and "nat (snd n) < length g1 \<Longrightarrow> length (g1 ! nat (snd n)) = length (g2 ! nat (snd n))"
    using d by (simp_all add: differ_only_at_def)
  then have "\<not> (nat (snd n) < length g2 \<and> nat (fst n) < length (g2 ! nat (snd n)))"
    using False by auto
  then have "cell g2 n = Inl IndexError"
    using nn by (simp add: cell_nonneg)
  ultimately show ?thesis by simp
qed

lemma visit_neighbor_closed:
  "visit_neighbor g goal cur st d = Inr st' \<Longrightarrow> closed_set st' = closed_set st"
  by (auto simp add: visit_neighbor_def Let_def record_better_def
      split: if_splits sum.splits option.splits)

lemma visit_all_closed:
  "visit_all g goal cur st ds = Inr st' \<Longrightarrow> closed_set st' = closed_set st"
proof (induction ds arbitrary: st)
  case Nil
  then show ?case by simp
next
  case (Cons d ds)
  then show ?case
    by (auto split: sum.splits dest: visit_neighbor_closed)
qed

lemma visit_neighbor_differ:
  assumes d: "differ_only_at g1 g2 start" and c: "start \<in> closed_set st"
  shows "visit_neighbor g2 goal cur st dir = visit_neighbor g1 goal cur st dir"
proof -
  let ?n = "(fst cur + fst dir, snd cur + snd dir)"
  show ?thesis
  proof (cases "in_grid g1 ?n")
    case False
    then show ?thesis by (simp add: visit_neighbor_def Let_def differ_in_grid [OF d])
  next
    case True
    then have nn: "0 \<le> fst ?n" "0 \<le> snd ?n" by (simp_all add: in_grid_def)
    from differ_cell [OF d nn] show ?thesis
    proof
      assume "cell g2 ?n = cell g1 ?n"
      then show ?thesis by (simp add: visit_neighbor_def Let_def differ_in_grid [OF d])
    next
      assume "?n = start \<and> (\<exists>b1 b2. cell g1 ?n = Inr b1 \<and> cell g2 ?n = Inr b2)"
      then show ?thesis
        using c True by (auto simp add: visit_neighbor_def Let_def differ_in_grid [OF d])
    qed
  qed
qed

lemma visit_all_differ:
  assumes d: "differ_only_at g1 g2 start" and c: "start \<in> closed_set st"
  shows "visit_all g2 goal cur st ds = visit_all g1 goal cur st ds"
  using c
proof (induction ds arbitrary: st)
  case Nil
  then show ?case by simp
next
  case (Cons dir ds)
  have e: "visit_neighbor g2 goal cur st dir = visit_neighbor g1 goal cur st dir"
    by (rule visit_neighbor_differ [OF d Cons.prems])
  show ?case
  proof (cases "visit_neighbor g1 goal cur st dir")
    case (Inl err)
    then show ?thesis by (simp add: e)
  next
    case (Inr st')
    then have "start \<in> closed_set st'"
      using visit_neighbor_closed [OF Inr] Cons.prems by simp
    then show ?thesis using Cons.IH Inr by (simp add: e)
  qed
qed

lemma least_entry_mem: "least_entry m es \<in> set (m # es)"
  by (induction es arbitrary: m) auto

lemma heappop_mem: "h \<noteq> [] \<Longrightarrow> fst (heappop h) \<in> set h"
  using least_entry_mem [of "hd h" "tl h"] by (cases h) (auto simp add: heappop_def Let_def)

lemma astar_loop_differ_aux:
  assumes d: "differ_only_at g1 g2 start"
    and run: "astar_loop g1 goal0 st0 = Some r0"
    and j0: "start \<in> closed_set st0 \<or> snd ` set (open_set st0) \<subseteq> {start}"
  shows "astar_loop g2 goal0 st0 = Some r0"
proof -
  let ?P = "\<lambda>g goal st r. g = g1 \<longrightarrow>
              (start \<in> closed_set st \<or> snd ` set (open_set st) \<subseteq> {start}) \<longrightarrow>
              astar_loop g2 goal st = Some r"
  have "?P g1 goal0 st0 r0"
  proof (rule astar_loop.raw_induct [where P = ?P, OF _ run])
    fix loop :: "walkgrid \<Rightarrow> pos \<Rightarrow> astar_state \<Rightarrow> (error + pos list) option"
      and g goal st r
    assume ih: "\<And>g goal st r. loop g goal st = Some r \<Longrightarrow> ?P g goal st r"
      and body: "(if open_set st = [] then Some (Inr [])
            else let (m, rest) = heappop (open_set st); current = snd m
                 in if current = goal
                    then map_option Inr (reconstruct (came_from st) current [current])
                    else case visit_all g goal current
                                (st\<lparr>open_set := rest,
                                   closed_set := insert current (closed_set st)\<rparr>)
                                directions of
                           Inl e \<Rightarrow> Some (Inl e)
                         | Inr st' \<Rightarrow> loop g goal st') = Some r"
    show "?P g goal st r"
    proof (intro impI)
      assume g: "g = g1"
        and j: "start \<in> closed_set st \<or> snd ` set (open_set st) \<subseteq> {start}"
      show "astar_loop g2 goal st = Some r"
      proof (cases "open_set st = []")
        case True
        with body show ?thesis by (subst astar_loop.simps) simp
      next
        case False
        obtain m rest where pop: "heappop (open_set st) = (m, rest)"
          by (cases "heappop (open_set st)")
        have m: "m \<in> set (open_set st)" using heappop_mem [OF False] pop by simp
        let ?st1 = "st\<lparr>open_set := rest, closed_set := insert (snd m) (closed_set st)\<rparr>"
        show ?thesis
        proof (cases "snd m = goal")
          case True
          with body False pop show ?thesis by (subst astar_loop.simps) simp
        next
          case ng: False
          have c1: "start \<in> closed_set ?st1" using j m by auto
          have va: "visit_all g2 goal (snd m) ?st1 directions
                      = visit_all g1 goal (snd m) ?st1 directions"
            by (rule visit_all_differ [OF d c1])
          show ?thesis
          proof (cases "visit_all g1 goal (snd m) ?st1 directions")
            case (Inl e)
            with body False pop ng g va show ?thesis by (subst astar_loop.simps) simp
          next
            case (Inr st')
            have "start \<in> closed_set st'" using visit_all_closed [OF Inr] c1 by simp
            moreover have "loop g1 goal st' = Some r"
              using body False pop ng g Inr by simp
            ultimately have "astar_loop g2 goal st' = Some r"
              using ih [of g1 goal st' r] by simp
            with False pop ng va Inr show ?thesis by (subst astar_loop.simps) simp
          qed
        qed
      qed
    qed
  qed
  then show ?thesis using j0 by simp
qed

lemma astar_loop_differ:
  assumes d: "differ_only_at g1 g2 start"
    and j: "start \<in> closed_set st \<or> snd ` set (open_set st) \<subseteq> {start}"
  shows "astar_loop g2 goal st = astar_loop g1 goal st"
proof (cases "astar_loop g1 goal st")
  case (Some r)
  then show ?thesis using astar_loop_differ_aux [OF d Some j] by simp
next
  case None
  show ?thesis
  proof (cases "astar_loop g2 goal st")
    case None
    with \<open>astar_loop g1 goal st = None\<close> show ?thesis by simp
  next
    case (Some r)
    from astar_loop_differ_aux [OF differ_only_at_sym [OF d] Some j] None
    show ?thesis by simp
  qed
qed

text \<open>
  C9.  When start and goal differ, the result of \<open>astar\<close> does not depend on the
  walkability of the start cell: two grids of the same shape that agree on every cell but
  the start cell give the same result.  In particular \<open>astar\<close> returns a path that begins
  on a start cell that is not walkable.
\<close>

theorem astar_ignores_start_cell:
  assumes "differ_only_at g1 g2 start" and "start \<noteq> goal"
  shows "astar g2 start goal = astar g1 start goal \<and>
         astar [[False, True, True]] (0, 0) (2, 0) = Some (Inr [(0, 0), (1, 0), (2, 0)])"
proof
  note d = assms(1)
  show "astar g2 start goal = astar g1 start goal"
  proof (cases "in_grid g1 start \<and> in_grid g1 goal")
    case False
    then show ?thesis by (auto simp add: astar_def differ_in_grid [OF d])
  next
    case True
    then have nn: "0 \<le> fst goal" "0 \<le> snd goal" by (simp_all add: in_grid_def)
    from differ_cell [OF d nn] assms(2) have c: "cell g2 goal = cell g1 goal" by auto
    let ?st = "\<lparr>open_set = heappush [] (heuristic start goal, start), closed_set = {},
                g_score = [start \<mapsto> 0], f_score = [start \<mapsto> heuristic start goal],
                came_from = Map.empty\<rparr>"
    have "astar_loop g2 goal ?st = astar_loop g1 goal ?st"
      by (rule astar_loop_differ [OF d]) (simp add: heappush_def)
    then show ?thesis
      using True assms(2) by (simp add: astar_def differ_in_grid [OF d] c split: sum.splits)
  qed
  show "astar [[False, True, True]] (0, 0) (2, 0) = Some (Inr [(0, 0), (1, 0), (2, 0)])"
    by code_simp
qed

theorem astar_ignores_start_cell_witness:
  "astar [[True, True, True]] (0, 0) (2, 0) = astar [[False, True, True]] (0, 0) (2, 0) \<and>
   astar [[False, True, True]] (0, 0) (2, 0) = Some (Inr [(0, 0), (1, 0), (2, 0)])"
proof -
  have "differ_only_at [[False, True, True]] [[True, True, True]] (0, 0)"
    by (auto simp add: differ_only_at_def nth_Cons split: nat.splits)
  from astar_ignores_start_cell [OF this, of "(2, 0)"] show ?thesis by simp
qed


section \<open>Cells outside the grid\<close>










section \<open>The generator: retries and termination\<close>











lemma mark_connected_length [simp]: "length (mark_connected rs i) = length rs"
  by (simp add: mark_connected_def)












section \<open>The search finds every reachable goal\<close>

lemma adjacent4_directions:
  "adjacent4 p q \<longleftrightarrow> (\<exists>d \<in> set directions. q = (fst p + fst d, snd p + snd d))"
proof
  assume "adjacent4 p q"
  then have "\<bar>fst p - fst q\<bar> + \<bar>snd p - snd q\<bar> = 1" by (simp add: adjacent4_def)
  then have "(fst q = fst p \<and> snd q = snd p - 1) \<or> (fst q = fst p + 1 \<and> snd q = snd p) \<or>
             (fst q = fst p \<and> snd q = snd p + 1) \<or> (fst q = fst p - 1 \<and> snd q = snd p)"
    by arith
  then show "\<exists>d \<in> set directions. q = (fst p + fst d, snd p + snd d)"
    by (cases q) (auto simp add: directions_def)
next
  assume "\<exists>d \<in> set directions. q = (fst p + fst d, snd p + snd d)"
  then show "adjacent4 p q" by (auto simp add: directions_def adjacent4_def)
qed

lemma rect_cell:
  assumes r: "rect g" and i: "in_grid g p"
  shows "cell g p = Inr (g ! nat (snd p) ! nat (fst p))"
proof -
  from i have nn: "0 \<le> fst p" "0 \<le> snd p" and y: "nat (snd p) < length g"
    by (auto simp add: in_grid_def grid_height_def)
  then have "g ! nat (snd p) \<in> set g" by simp
  with r have "length (g ! nat (snd p)) = length (hd g)" by (simp add: rect_def)
  moreover from i y have "nat (fst p) < length (hd g)"
    by (auto simp add: in_grid_def grid_width_def grid_height_def split: if_splits)
  ultimately show ?thesis using y by (simp add: cell_nonneg [OF nn])
qed

lemma finite_in_grid: "finite {p. in_grid g p}"
proof -
  have "{p. in_grid g p} \<subseteq> {0..<grid_width g} \<times> {0..<grid_height g}"
    by (auto simp add: in_grid_def)
  then show ?thesis by (rule finite_subset) simp
qed

lemma reconstruct_returns:
  assumes cf: "\<forall>n c. cf n = Some c \<longrightarrow> (\<exists>gc. gs c = Some gc \<and> gs n = Some (gc + 1))"
    and nn: "\<forall>n v. gs n = Some v \<longrightarrow> (0::int) \<le> v"
    and cur: "gs cur = Some v"
  shows "\<exists>p. reconstruct cf cur path = Some p \<and> length path \<le> length p"
  using cur
proof (induction "nat v" arbitrary: v cur path rule: less_induct)
  case less
  show ?case
  proof (cases "cf cur")
    case None
    then show ?thesis by (subst reconstruct.simps) simp
  next
    case (Some c)
    with cf obtain gc where gc: "gs c = Some gc" "gs cur = Some (gc + 1)" by blast
    with less.prems have v: "v = gc + 1" by simp
    from nn gc have "0 \<le> gc" by blast
    with v have "nat gc < nat v" by simp
    from less.hyps [OF this gc(1), of "path @ [c]"]
    obtain p where "reconstruct cf c (path @ [c]) = Some p" "length (path @ [c]) \<le> length p"
      by blast
    with Some show ?thesis by (subst reconstruct.simps) simp
  qed
qed

lemma record_better_base:
  assumes b: "astar_base g start goal st" and cur: "cur \<in> closed_set st"
    and gc: "g_score st cur = Some gc" and n: "n \<notin> closed_set st" "in_grid g n"
    and st1: "st1 = record_better st n cur (gc + 1) f"
    and st2: "st2 = (if n \<notin> nodes st1 then st1\<lparr>open_set := heappush (open_set st1) (f, n)\<rparr> else st1)"
  shows "astar_base g start goal st2 \<and> closed_set st2 = closed_set st \<and>
         nodes st2 = insert n (nodes st)"
proof -
  have o1: "open_set st1 = open_set st" and c1: "closed_set st1 = closed_set st"
    and g1: "g_score st1 = (g_score st)(n \<mapsto> gc + 1)"
    and cf1: "came_from st1 = (came_from st)(n \<mapsto> cur)"
    by (simp_all add: st1 record_better_def)
  have n1: "nodes st1 = nodes st" by (simp add: nodes_def o1)
  have c2: "closed_set st2 = closed_set st" by (simp add: st2 c1)
  have g2: "g_score st2 = (g_score st)(n \<mapsto> gc + 1)" by (simp add: st2 g1)
  have cf2: "came_from st2 = (came_from st)(n \<mapsto> cur)" by (simp add: st2 cf1)
  have n2: "nodes st2 = insert n (nodes st)"
    using n1 by (auto simp add: st2 nodes_def heappush_def o1)
  have d2: "distinct (map snd (open_set st2))"
    using b n1 by (auto simp add: st2 astar_base_def nodes_def heappush_def o1)
  from b have dm: "dom (g_score st) = closed_set st \<union> nodes st"
    and cfi: "\<forall>m c. came_from st m = Some c \<longrightarrow>
        c \<in> closed_set st \<and> (\<exists>gc. g_score st c = Some gc \<and> g_score st m = Some (gc + 1))"
    and nn: "\<forall>m v. g_score st m = Some v \<longrightarrow> 0 \<le> v"
    by (simp_all add: astar_base_def)
  have cf': "\<forall>m c. came_from st2 m = Some c \<longrightarrow>
        c \<in> closed_set st2 \<and> (\<exists>gc. g_score st2 c = Some gc \<and> g_score st2 m = Some (gc + 1))"
  proof (intro allI impI)
    fix m c
    assume a: "came_from st2 m = Some c"
    show "c \<in> closed_set st2 \<and> (\<exists>gc. g_score st2 c = Some gc \<and> g_score st2 m = Some (gc + 1))"
    proof (cases "m = n")
      case True
      with a have "c = cur" by (simp add: cf2)
      with True cur gc n show ?thesis by (auto simp add: c2 g2)
    next
      case False
      with a have "came_from st m = Some c" by (simp add: cf2)
      with cfi obtain gc' where "c \<in> closed_set st" "g_score st c = Some gc'"
        "g_score st m = Some (gc' + 1)" by blast
      with False n show ?thesis by (auto simp add: c2 g2)
    qed
  qed
  have nn': "\<forall>m v. g_score st2 m = Some v \<longrightarrow> 0 \<le> v"
  proof -
    from nn gc have "0 \<le> gc" by blast
    then show ?thesis using nn by (auto simp add: g2 split: if_splits)
  qed
  have dm': "dom (g_score st2) = closed_set st2 \<union> nodes st2"
    using dm by (auto simp add: g2 c2 n2)
  have rest: "(\<forall>p \<in> nodes st2. in_grid g p) \<and> (\<forall>p \<in> closed_set st2. in_grid g p) \<and>
              nodes st2 \<inter> closed_set st2 = {} \<and> start \<in> closed_set st2 \<union> nodes st2 \<and>
              goal \<notin> closed_set st2"
    using b n by (auto simp add: astar_base_def c2 n2)
  show ?thesis using d2 rest dm' cf' nn' c2 n2 unfolding astar_base_def by blast
qed

lemma visit_neighbor_base:
  assumes r: "rect g" and b: "astar_base g start goal st" and cur: "cur \<in> closed_set st"
  shows "\<exists>st'. visit_neighbor g goal cur st d = Inr st' \<and> astar_base g start goal st' \<and>
               closed_set st' = closed_set st \<and> nodes st \<subseteq> nodes st' \<and>
               (walkable_cell g (fst cur + fst d, snd cur + snd d) \<longrightarrow>
                  (fst cur + fst d, snd cur + snd d) \<in> closed_set st' \<union> nodes st')"
proof -
  let ?n = "(fst cur + fst d, snd cur + snd d)"
  show ?thesis
  proof (cases "in_grid g ?n")
    case False
    then have "visit_neighbor g goal cur st d = Inr st" by (simp add: visit_neighbor_def)
    with b False show ?thesis by (simp add: walkable_cell_def)
  next
    case True
    let ?w = "g ! nat (snd ?n) ! nat (fst ?n)"
    have cl: "cell g ?n = Inr ?w" using rect_cell [OF r True] by simp
    show ?thesis
    proof (cases "\<not> ?w \<or> ?n \<in> closed_set st")
      case True
      then have "visit_neighbor g goal cur st d = Inr st"
        using \<open>in_grid g ?n\<close> cl by (auto simp add: visit_neighbor_def Let_def)
      with b True cl show ?thesis by (auto simp add: walkable_cell_def)
    next
      case False
      from b cur have "cur \<in> dom (g_score st)" by (auto simp add: astar_base_def)
      then obtain gc where gc: "g_score st cur = Some gc" by auto
      show ?thesis
      proof (cases "case g_score st ?n of None \<Rightarrow> True | Some gn \<Rightarrow> gc + 1 < gn")
        case c: False
        then have "visit_neighbor g goal cur st d = Inr st"
          using \<open>in_grid g ?n\<close> cl False gc by (simp add: visit_neighbor_def Let_def)
        moreover from c have "?n \<in> dom (g_score st)" by (auto split: option.splits)
        then have "?n \<in> closed_set st \<union> nodes st" using b by (simp add: astar_base_def)
        ultimately show ?thesis using b by simp
      next
        case c: True
        let ?f = "gc + 1 + heuristic ?n goal"
        let ?st1 = "record_better st ?n cur (gc + 1) ?f"
        let ?st2 = "if ?n \<notin> nodes ?st1 then ?st1\<lparr>open_set := heappush (open_set ?st1) (?f, ?n)\<rparr>
                    else ?st1"
        have v: "visit_neighbor g goal cur st d = Inr ?st2"
          using \<open>in_grid g ?n\<close> cl False gc c
          by (simp add: visit_neighbor_def Let_def nodes_def)
        from False have nc: "?n \<notin> closed_set st" by simp
        from record_better_base [where f = ?f, OF b cur gc nc \<open>in_grid g ?n\<close> refl refl]
        have "astar_base g start goal ?st2 \<and> closed_set ?st2 = closed_set st \<and>
              nodes ?st2 = insert ?n (nodes st)" .
        with v show ?thesis by (intro exI [of _ ?st2]) auto
      qed
    qed
  qed
qed

lemma visit_all_base:
  assumes r: "rect g" and b: "astar_base g start goal st" and cur: "cur \<in> closed_set st"
  shows "\<exists>st'. visit_all g goal cur st ds = Inr st' \<and> astar_base g start goal st' \<and>
               closed_set st' = closed_set st \<and> nodes st \<subseteq> nodes st' \<and>
               (\<forall>d \<in> set ds. walkable_cell g (fst cur + fst d, snd cur + snd d) \<longrightarrow>
                  (fst cur + fst d, snd cur + snd d) \<in> closed_set st' \<union> nodes st')"
  using b cur
proof (induction ds arbitrary: st)
  case Nil
  then show ?case by simp
next
  case (Cons d ds)
  from visit_neighbor_base [OF r Cons.prems, of d]
  obtain st1 where s1: "visit_neighbor g goal cur st d = Inr st1" "astar_base g start goal st1"
    "closed_set st1 = closed_set st" "nodes st \<subseteq> nodes st1"
    "walkable_cell g (fst cur + fst d, snd cur + snd d) \<longrightarrow>
       (fst cur + fst d, snd cur + snd d) \<in> closed_set st1 \<union> nodes st1" by blast
  from s1(3) Cons.prems have "cur \<in> closed_set st1" by simp
  from Cons.IH [OF s1(2) this]
  obtain st' where s': "visit_all g goal cur st1 ds = Inr st'" "astar_base g start goal st'"
    "closed_set st' = closed_set st1" "nodes st1 \<subseteq> nodes st'"
    "\<forall>d \<in> set ds. walkable_cell g (fst cur + fst d, snd cur + snd d) \<longrightarrow>
       (fst cur + fst d, snd cur + snd d) \<in> closed_set st' \<union> nodes st'" by blast
  have "visit_all g goal cur st (d # ds) = Inr st'" using s1(1) s'(1) by simp
  moreover have "closed_set st' = closed_set st" using s1(3) s'(3) by simp
  moreover have "nodes st \<subseteq> nodes st'" using s1(4) s'(4) by blast
  moreover have "\<forall>e \<in> set (d # ds). walkable_cell g (fst cur + fst e, snd cur + snd e) \<longrightarrow>
       (fst cur + fst e, snd cur + snd e) \<in> closed_set st' \<union> nodes st'"
    using s1(5) s'(3,4,5) by auto
  ultimately show ?case using s'(2) by blast
qed

lemma heappop_distinct:
  assumes h: "h \<noteq> []" and d: "distinct (map snd h)" and p: "heappop h = (m, rest)"
  shows "m \<in> set h" and "snd ` set rest = snd ` set h - {snd m}" and "distinct (map snd rest)"
proof -
  from p have m: "m = least_entry (hd h) (tl h)" and rest: "rest = remove1 m h"
    by (auto simp add: heappop_def Let_def)
  show mh: "m \<in> set h" using heappop_mem [OF h] p by simp
  from d have dh: "distinct h" and inj: "inj_on snd (set h)" by (simp_all add: distinct_map)
  have sr: "set rest = set h - {m}" using dh by (simp add: rest)
  show "snd ` set rest = snd ` set h - {snd m}"
  proof -
    have "snd ` (set h - {m}) = snd ` set h - snd ` {m}"
      using inj mh by (intro inj_on_image_set_diff [of snd "set h"]) auto
    then show ?thesis by (simp add: sr)
  qed
  show "distinct (map snd rest)"
    unfolding distinct_map
  proof
    show "distinct rest" using dh by (simp add: rest)
    show "inj_on snd (set rest)" using inj sr by (auto intro: inj_on_subset)
  qed
qed

lemma pop_base:
  assumes b: "astar_base g start goal st" and o: "open_set st \<noteq> []"
    and p: "heappop (open_set st) = (m, rest)" and ng: "snd m \<noteq> goal"
    and st1: "st1 = st\<lparr>open_set := rest, closed_set := insert (snd m) (closed_set st)\<rparr>"
  shows "astar_base g start goal st1" and "nodes st1 = nodes st - {snd m}"
    and "snd m \<in> nodes st" and "snd m \<notin> closed_set st"
proof -
  from b have d: "distinct (map snd (open_set st))" by (simp add: astar_base_def)
  note hp = heappop_distinct [OF o d p]
  show n1: "nodes st1 = nodes st - {snd m}" using hp(2) by (simp add: st1 nodes_def)
  show mn: "snd m \<in> nodes st" using hp(1) by (auto simp add: nodes_def)
  show mc: "snd m \<notin> closed_set st" using b mn by (auto simp add: astar_base_def)
  have c1: "closed_set st1 = insert (snd m) (closed_set st)" by (simp add: st1)
  have g1: "g_score st1 = g_score st" "came_from st1 = came_from st" by (simp_all add: st1)
  have d1: "distinct (map snd (open_set st1))" using hp(3) by (simp add: st1)
  have "(\<forall>p \<in> nodes st1. in_grid g p) \<and> (\<forall>p \<in> closed_set st1. in_grid g p) \<and>
        nodes st1 \<inter> closed_set st1 = {} \<and>
        dom (g_score st1) = closed_set st1 \<union> nodes st1 \<and>
        start \<in> closed_set st1 \<union> nodes st1 \<and> goal \<notin> closed_set st1"
    using b mn ng unfolding astar_base_def n1 c1 g1 by auto
  moreover have "\<forall>n c. came_from st1 n = Some c \<longrightarrow>
        c \<in> closed_set st1 \<and> (\<exists>gc. g_score st1 c = Some gc \<and> g_score st1 n = Some (gc + 1))"
    using b unfolding astar_base_def c1 g1 by blast
  moreover have "\<forall>n v. g_score st1 n = Some v \<longrightarrow> 0 \<le> v"
    using b unfolding astar_base_def g1 by blast
  ultimately show "astar_base g start goal st1" using d1 unfolding astar_base_def by blast
qed

lemma closed_reach:
  assumes reach: "(start, x) \<in> (wstep g)\<^sup>*" and s: "start \<in> C"
    and cl: "\<forall>c \<in> C. \<forall>n. adjacent4 c n \<and> walkable_cell g n \<longrightarrow> n \<in> C"
  shows "x \<in> C"
  using reach
proof (induction rule: rtrancl_induct)
  case base
  show ?case by (rule s)
next
  case (step y z)
  then have "adjacent4 y z \<and> walkable_cell g z" "y \<in> C" by (simp_all add: wstep_def)
  with cl show ?case by blast
qed

lemma astar_loop_complete:
  assumes r: "rect g" and reach: "(start, goal) \<in> (wstep g)\<^sup>*"
    and b: "astar_base g start goal st" and cov: "\<forall>c \<in> closed_set st. covered g st c"
  shows "\<exists>p. astar_loop g goal st = Some (Inr p) \<and> p \<noteq> []"
  using b cov
proof (induction "card ({p. in_grid g p} - closed_set st)" arbitrary: st rule: less_induct)
  case less
  note b = less.prems(1) and cov = less.prems(2)
  show ?case
  proof (cases "open_set st = []")
    case True
    then have n: "nodes st = {}" by (simp add: nodes_def)
    with b have "start \<in> closed_set st" by (simp add: astar_base_def)
    moreover have "\<forall>c \<in> closed_set st. \<forall>n. adjacent4 c n \<and> walkable_cell g n \<longrightarrow> n \<in> closed_set st"
      using cov n by (simp add: covered_def)
    ultimately have "goal \<in> closed_set st" using closed_reach [OF reach] by blast
    with b show ?thesis by (simp add: astar_base_def)
  next
    case False
    obtain m rest where p: "heappop (open_set st) = (m, rest)" by (cases "heappop (open_set st)")
    show ?thesis
    proof (cases "snd m = goal")
      case True
      from b have d: "distinct (map snd (open_set st))" by (simp add: astar_base_def)
      from heappop_distinct(1) [OF False d p] True have "goal \<in> nodes st"
        by (auto simp add: nodes_def)
      with b have "goal \<in> dom (g_score st)" by (auto simp add: astar_base_def)
      then obtain v where v: "g_score st goal = Some v" by auto
      have "\<exists>q. reconstruct (came_from st) goal [goal] = Some q \<and> length [goal] \<le> length q"
      proof (rule reconstruct_returns [where gs = "g_score st", OF _ _ v])
        show "\<forall>n c. came_from st n = Some c \<longrightarrow>
                (\<exists>gc. g_score st c = Some gc \<and> g_score st n = Some (gc + 1))"
          using b unfolding astar_base_def by blast
        show "\<forall>n v. g_score st n = Some v \<longrightarrow> 0 \<le> v"
          using b unfolding astar_base_def by blast
      qed
      then obtain q where q: "reconstruct (came_from st) goal [goal] = Some q" "q \<noteq> []"
        by fastforce
      have "astar_loop g goal st = Some (Inr q)"
        using False p True q(1) by (subst astar_loop.simps) (simp add: Let_def)
      with q(2) show ?thesis by simp
    next
      case ng: False
      let ?st1 = "st\<lparr>open_set := rest, closed_set := insert (snd m) (closed_set st)\<rparr>"
      note pb = pop_base [OF b False p ng refl]
      have cur1: "snd m \<in> closed_set ?st1" by simp
      from visit_all_base [OF r pb(1) cur1, of directions]
      obtain st' where s': "visit_all g goal (snd m) ?st1 directions = Inr st'"
        "astar_base g start goal st'" "closed_set st' = closed_set ?st1" "nodes ?st1 \<subseteq> nodes st'"
        "\<forall>d \<in> set directions. walkable_cell g (fst (snd m) + fst d, snd (snd m) + snd d) \<longrightarrow>
           (fst (snd m) + fst d, snd (snd m) + snd d) \<in> closed_set st' \<union> nodes st'" by blast
      have c': "closed_set st' = insert (snd m) (closed_set st)" using s'(3) by simp
      have sub: "closed_set st \<union> nodes st \<subseteq> closed_set st' \<union> nodes st'"
        using pb(2) s'(4) c' by auto
      have cov': "\<forall>c \<in> closed_set st'. covered g st' c"
      proof
        fix c
        assume "c \<in> closed_set st'"
        then consider "c = snd m" | "c \<in> closed_set st" using c' by auto
        then show "covered g st' c"
        proof cases
          case 1
          then show ?thesis using s'(5) by (auto simp add: covered_def adjacent4_directions)
        next
          case 2
          with cov have "covered g st c" by simp
          then show ?thesis using sub unfolding covered_def by blast
        qed
      qed
      have ig: "in_grid g (snd m)" using b pb(3) by (simp add: astar_base_def)
      have "{p. in_grid g p} - closed_set st' \<subset> {p. in_grid g p} - closed_set st"
        using c' ig pb(4) by auto
      then have "card ({p. in_grid g p} - closed_set st') < card ({p. in_grid g p} - closed_set st)"
        using finite_in_grid [of g] by (intro psubset_card_mono) auto
      from less.hyps [OF this s'(2) cov']
      obtain q where "astar_loop g goal st' = Some (Inr q)" "q \<noteq> []" by blast
      moreover have "astar_loop g goal st = astar_loop g goal st'"
        using False p ng s'(1) by (subst astar_loop.simps) (simp add: Let_def)
      ultimately show ?thesis by simp
    qed
  qed
qed

lemma astar_complete:
  assumes r: "rect g" and s: "in_grid g start" and reach: "(start, goal) \<in> (wstep g)\<^sup>*"
  shows "\<exists>p. astar g start goal = Some (Inr p) \<and> p \<noteq> []"
proof (cases "start = goal")
  case True
  with s show ?thesis by (simp add: astar_def)
next
  case False
  with reach have "(start, goal) \<in> (wstep g)\<^sup>+" by (simp add: rtrancl_eq_or_trancl)
  then obtain y where "(y, goal) \<in> wstep g" by (blast elim: tranclE)
  then have w: "walkable_cell g goal" by (simp add: wstep_def)
  then have ig: "in_grid g goal" and c: "cell g goal = Inr True" by (simp_all add: walkable_cell_def)
  let ?st = "\<lparr>open_set = heappush [] (heuristic start goal, start), closed_set = {},
              g_score = [start \<mapsto> 0], f_score = [start \<mapsto> heuristic start goal],
              came_from = Map.empty\<rparr>"
  have b: "astar_base g start goal ?st"
    using s by (simp add: astar_base_def nodes_def heappush_def)
  have "\<exists>p. astar_loop g goal ?st = Some (Inr p) \<and> p \<noteq> []"
    by (rule astar_loop_complete [OF r reach b]) simp
  then show ?thesis using s ig False c by (simp add: astar_def)
qed

end
